theory Spec2Isabelle
  imports Complex_Main "HOL-Library.Log_Nat"
begin

section \<open>Data model of \<^verbatim>\<open>client.go\<close>\<close>

text \<open>
  A \<^verbatim>\<open>time.Duration\<close> is a signed 64-bit count of nanoseconds. It is modelled as an
  \<open>int\<close>; where the source computes with it, the wrap-around is written out with
  \<open>wrap64\<close>. Status codes and attempt numbers are Go \<^verbatim>\<open>int\<close>s, 64 bits wide on
  the 64-bit platforms. The loop counter of \<^verbatim>\<open>Do\<close> runs from 0 to at most
  \<^verbatim>\<open>RetryMax\<close>, so \<^verbatim>\<open>i++\<close> and \<^verbatim>\<open>c.RetryMax - i\<close> stay in range and are
  written without \<open>wrap64\<close>.
\<close>

type_synonym duration = int

definition second :: duration where
  "second = 1000000000"

definition defaultRetryWaitMin :: duration where
  "defaultRetryWaitMin = 1 * second"

definition defaultRetryWaitMax :: duration where
  "defaultRetryWaitMax = 30 * second"

definition wrap64 :: "int \<Rightarrow> int" where
  "wrap64 x = (x + 2 ^ 63) mod 2 ^ 64 - 2 ^ 63"

definition in_int64 :: "int \<Rightarrow> bool" where
  "in_int64 x \<longleftrightarrow> - (2 ^ 63) \<le> x \<and> x < 2 ^ 63"

definition defaultRetryMax :: int where
  "defaultRetryMax = 4"

definition respReadLimit :: int where
  "respReadLimit = 4096"

text \<open>
  Go errors are opaque values. The errors the source tells apart are the two a context
  reports, the one \<^verbatim>\<open>Do\<close> formats itself
  (\<^verbatim>\<open>"%s %s giving up after %d attempts"\<close> with the method, the URL and the number of
  tries) and every other one, which is kept as its message.
\<close>

datatype error =
    Canceled
  | DeadlineExceeded
  | GivingUp string string int
  | ErrorString string

text \<open>A nil dereference or a call through a nil function value unwinds the caller.\<close>

datatype panic = NilDereference

text \<open>
  Of an \<^verbatim>\<open>*http.Response\<close> the source reads the status code and drains or closes the
  body; the body is a handle.
\<close>

record response =
  StatusCode :: int
  Body :: nat

text \<open>
  A \<^verbatim>\<open>context.Context\<close> is consulted through \<^verbatim>\<open>ctx.Err()\<close> only, which is nil
  until the cancellation or the deadline fires and the same error from then on. The model
  of a context is the value \<^verbatim>\<open>Err\<close> returns.
\<close>

type_synonym Context = "error option"

section \<open>The default retry policy\<close>

text \<open>
  \<^verbatim>\<open>DefaultRetryPolicy(ctx, resp, err)\<close>. With a live context, no error and a nil
  response the source evaluates \<^verbatim>\<open>resp.StatusCode\<close> on a nil pointer.
\<close>

definition DefaultRetryPolicy ::
  "Context \<Rightarrow> response option \<Rightarrow> error option \<Rightarrow> panic + (bool \<times> error option)" where
  "DefaultRetryPolicy ctx resp err =
     (if ctx \<noteq> None then Inr (False, ctx)
      else if err \<noteq> None then Inr (True, err)
      else (case resp of
              None \<Rightarrow> Inl NilDereference
            | Some r \<Rightarrow>
                if StatusCode r = 0 \<or> (StatusCode r \<ge> 500 \<and> StatusCode r \<noteq> 501)
                then Inr (True, None)
                else Inr (False, None)))"

section \<open>The float64 arithmetic of the backoff functions\<close>

text \<open>
  Both backoff functions compute in \<^verbatim>\<open>float64\<close>. A finite float64 is kept as the
  rational it denotes (the sign of zero is dropped: no operation used here tells \<open>-0\<close>
  from \<open>0\<close>). \<open>f64_round\<close> is round-to-nearest, ties to even, to 53 significant bits
  with the exponent range of binary64: below \<open>2 powi (- 1022)\<close> the spacing stays
  \<open>2 powi (- 1074)\<close>, and a result that reaches \<open>2 powi 1024\<close> is an infinity.
\<close>

datatype f64 = Fin rat | PInf | NInf | NaN

definition floor_log2 :: "rat \<Rightarrow> int" where
  "floor_log2 x =
     (let (a, b) = quotient_of x; k = bitlen a - bitlen b
      in if 2 powi k \<le> x then k else k - 1)"

definition round_half_even :: "rat \<Rightarrow> int" where
  "round_half_even t =
     (let f = \<lfloor>t\<rfloor>; d = t - of_int f
      in if d < 1 / 2 then f else if 1 / 2 < d then f + 1 else if even f then f else f + 1)"

definition f64_round :: "rat \<Rightarrow> f64" where
  "f64_round x =
     (if x = 0 then Fin 0
      else let e = max (floor_log2 \<bar>x\<bar>) (- 1022);
               q = 2 powi (e - 52);
               y = of_int (round_half_even (x / q)) * q
           in if 2 powi 1024 \<le> \<bar>y\<bar> then (if 0 < x then PInf else NInf) else Fin y)"

text \<open>\<^verbatim>\<open>float64(x)\<close> for an integer \<open>x\<close>.\<close>

definition f64_of_int64 :: "int \<Rightarrow> f64" where
  "f64_of_int64 x = f64_round (of_int x)"

text \<open>
  A rational is a float64 value when rounding leaves it as it is. \<open>float64_of x\<close> is the
  integer that \<^verbatim>\<open>float64(x)\<close> denotes for an \<^verbatim>\<open>int64\<close> \<open>x\<close>: \<open>x\<close> itself up to
  \<open>2 ^ 53\<close> in magnitude, and \<open>x\<close> rounded to 53 significant bits beyond.
\<close>

definition is_float64 :: "rat \<Rightarrow> bool" where
  "is_float64 r \<longleftrightarrow> f64_round r = Fin r"

definition float64_of :: "int \<Rightarrow> int" where
  "float64_of x = (case f64_of_int64 x of Fin y \<Rightarrow> \<lfloor>y\<rfloor> | _ \<Rightarrow> 0)"

text \<open>The product \<^verbatim>\<open>a * b\<close> of two float64 values.\<close>

fun f64_mul :: "f64 \<Rightarrow> f64 \<Rightarrow> f64" where
  "f64_mul (Fin a) (Fin b) = f64_round (a * b)"
| "f64_mul NaN _ = NaN"
| "f64_mul _ NaN = NaN"
| "f64_mul (Fin a) PInf = (if a = 0 then NaN else if 0 < a then PInf else NInf)"
| "f64_mul (Fin a) NInf = (if a = 0 then NaN else if 0 < a then NInf else PInf)"
| "f64_mul PInf (Fin b) = (if b = 0 then NaN else if 0 < b then PInf else NInf)"
| "f64_mul NInf (Fin b) = (if b = 0 then NaN else if 0 < b then NInf else PInf)"
| "f64_mul PInf PInf = PInf"
| "f64_mul NInf NInf = PInf"
| "f64_mul PInf NInf = NInf"
| "f64_mul NInf PInf = NInf"

text \<open>The comparison \<^verbatim>\<open>a != b\<close>: a NaN differs from everything.\<close>

definition f64_ne :: "f64 \<Rightarrow> f64 \<Rightarrow> bool" where
  "f64_ne a b \<longleftrightarrow> a = NaN \<or> b = NaN \<or> a \<noteq> b"

text \<open>
  The conversion \<^verbatim>\<open>int64(f)\<close> truncates towards zero. For a value that no
  \<^verbatim>\<open>int64\<close> represents the language leaves the result to the implementation
  (\<open>- 2 ^ 63\<close> on amd64; arm64 saturates and turns a NaN into 0); the model takes that
  result as the parameter \<open>oor\<close>.
\<close>

definition f64_to_int64 :: "int \<Rightarrow> f64 \<Rightarrow> int" where
  "f64_to_int64 oor f =
     (case f of
        Fin y \<Rightarrow>
          (let t = (if 0 \<le> y then \<lfloor>y\<rfloor> else \<lceil>y\<rceil>)
           in if in_int64 t then t else oor)
      | _ \<Rightarrow> oor)"

text \<open>
  \<^verbatim>\<open>math.Pow(2, y)\<close> of the standard library, for the integer-valued \<open>y\<close> that
  \<^verbatim>\<open>float64(attemptNum)\<close> is: the exact power of two, \<open>+Inf\<close> from \<open>2 powi 1024\<close>
  on and 0 below half of the smallest subnormal \<open>2 powi (- 1074)\<close>.
\<close>

definition math_Pow2 :: "f64 \<Rightarrow> f64" where
  "math_Pow2 y =
     (case y of
        Fin t \<Rightarrow> if 1024 \<le> t then PInf else if t < - 1074 then Fin 0 else Fin (2 powi \<lfloor>t\<rfloor>)
      | PInf \<Rightarrow> PInf
      | NInf \<Rightarrow> Fin 0
      | NaN \<Rightarrow> NaN)"

section \<open>The backoff functions\<close>

text \<open>\<^verbatim>\<open>DefaultBackoff(min, max, attemptNum, resp)\<close>; the response is not read.\<close>

definition DefaultBackoff ::
  "int \<Rightarrow> duration \<Rightarrow> duration \<Rightarrow> int \<Rightarrow> response option \<Rightarrow> duration" where
  "DefaultBackoff oor min_d max_d attemptNum resp =
     (let mult = f64_mul (math_Pow2 (f64_of_int64 attemptNum)) (f64_of_int64 min_d);
          sleep = f64_to_int64 oor mult
      in if f64_ne (f64_of_int64 sleep) mult \<or> max_d < sleep then max_d else sleep)"

text \<open>
  \<^verbatim>\<open>LinearJitterBackoff(min, max, attemptNum, resp)\<close>. The source seeds a generator
  from the clock and draws \<^verbatim>\<open>rand.Float64()\<close>; the draw is the parameter \<open>r\<close>, a
  float64 in \<open>[0, 1)\<close>.
\<close>

definition LinearJitterBackoff ::
  "int \<Rightarrow> rat \<Rightarrow> duration \<Rightarrow> duration \<Rightarrow> int \<Rightarrow> response option \<Rightarrow> duration" where
  "LinearJitterBackoff oor r min_d max_d attemptNum resp =
     (let attemptNum' = wrap64 (attemptNum + 1)
      in if max_d \<le> min_d then wrap64 (min_d * attemptNum')
         else let jitter = f64_mul (Fin r) (f64_of_int64 (wrap64 (max_d - min_d)));
                  jitterMin = wrap64 (f64_to_int64 oor jitter + min_d)
              in wrap64 (jitterMin * attemptNum'))"

section \<open>Requests, configuration and client\<close>

text \<open>
  The collaborators of the client (the body factory, the transport, the hooks, the
  policies) are Go functions with effects of their own. Each is a function on a world
  \<open>'w\<close> that returns its result and the next world; \<open>'b\<close> is the type of body
  streams. The context of a request answers \<^verbatim>\<open>Err()\<close> from the world.
\<close>

record ('w, 'b) http_Request =
  Method :: string
  URL :: string
  ReqBody :: "'b option"
  ContentLength :: int
  Context :: "'w \<Rightarrow> Context"

type_synonym ('w, 'b) ReaderFunc = "'w \<Rightarrow> (error + 'b) \<times> 'w"

record ('w, 'b) Request =
  body :: "('w, 'b) ReaderFunc option"
  Request :: "('w, 'b) http_Request"

datatype logger = StderrLogger string | CustomLogger nat

type_synonym ('w, 'b) transport =
  "('w, 'b) http_Request \<Rightarrow> 'w \<Rightarrow> (response option \<times> error option) \<times> 'w"

type_synonym 'w CheckRetry =
  "Context \<Rightarrow> response option \<Rightarrow> error option \<Rightarrow> 'w \<Rightarrow> (panic + bool \<times> error option) \<times> 'w"

type_synonym 'w Backoff =
  "duration \<Rightarrow> duration \<Rightarrow> int \<Rightarrow> response option \<Rightarrow> 'w \<Rightarrow> duration \<times> 'w"

type_synonym 'w ErrorHandler =
  "response option \<Rightarrow> error option \<Rightarrow> int \<Rightarrow> 'w \<Rightarrow> (response option \<times> error option) \<times> 'w"

record ('w, 'b) Config =
  Metrics :: bool
  RetryMax :: int
  RetryWaitMin :: duration
  RetryWaitMax :: duration
  Logger :: "logger option"
  HttpClient :: "('w, 'b) transport option"
  RequestModifier :: "(('w, 'b) Request \<Rightarrow> 'w \<Rightarrow> ('w, 'b) Request \<times> 'w) option"
  RequestLogHook :: "(('w, 'b) http_Request \<Rightarrow> int \<Rightarrow> 'w \<Rightarrow> 'w) option"
  ResponseLogHook :: "(response option \<Rightarrow> 'w \<Rightarrow> 'w) option"
  CheckRetry :: "'w CheckRetry option"
  Backoff :: "'w Backoff option"
  ErrorHandler :: "'w ErrorHandler option"

text \<open>The two defaults as values of the configuration's function types.\<close>

definition DefaultRetryPolicy_fn :: "'w CheckRetry" where
  "DefaultRetryPolicy_fn c resp err w = (DefaultRetryPolicy c resp err, w)"

definition DefaultBackoff_fn :: "int \<Rightarrow> 'w Backoff" where
  "DefaultBackoff_fn oor min_d max_d attemptNum resp w =
     (DefaultBackoff oor min_d max_d attemptNum resp, w)"

text \<open>
  \<^verbatim>\<open>Config.init\<close>, statement by statement. The default transport
  \<^verbatim>\<open>cleanhttp.DefaultClient()\<close> belongs to another package and is the parameter
  \<open>dflt\<close>. The source returns a nil error on every path.
\<close>

definition init :: "('w, 'b) transport \<Rightarrow> int \<Rightarrow> ('w, 'b) Config \<Rightarrow> ('w, 'b) Config" where
  "init dflt oor c =
     (let c1 = (if Logger c = None then c\<lparr>Logger := Some (StderrLogger ''[HTTP CLIENT]'')\<rparr> else c);
          c2 = (if HttpClient c1 = None then c1\<lparr>HttpClient := Some dflt\<rparr> else c1);
          c3 = (if RetryMax c2 \<le> 0 then c2\<lparr>RetryWaitMin := defaultRetryWaitMin\<rparr> else c2);
          c4 = (if RetryWaitMax c3 \<le> 0 then c3\<lparr>RetryWaitMax := defaultRetryWaitMax\<rparr> else c3);
          c5 = (if CheckRetry c4 = None then c4\<lparr>CheckRetry := Some DefaultRetryPolicy_fn\<rparr> else c4);
          c6 = (if Backoff c5 = None then c5\<lparr>Backoff := Some (DefaultBackoff_fn oor)\<rparr> else c5);
          c7 = (if RetryMax c6 \<le> 0 then c6\<lparr>RetryMax := defaultRetryMax\<rparr> else c6)
      in c7)"

text \<open>\<^verbatim>\<open>PassthroughErrorHandler\<close>.\<close>

definition PassthroughErrorHandler :: "'w ErrorHandler" where
  "PassthroughErrorHandler resp err n w = ((resp, err), w)"

section \<open>\<^verbatim>\<open>Client.Do\<close>\<close>

text \<open>
  What \<^verbatim>\<open>Do\<close> itself does to its collaborators is recorded in a trace, in order.
  Metrics, log lines and the tracing span change neither the control flow nor the result
  and are left out. \<^verbatim>\<open>drainBody\<close> reads at most \<open>respReadLimit\<close> bytes of the body and
  closes it; it is one event.
\<close>

datatype event =
    EvRequestModifier
  | EvBody int
  | EvRequestLogHook int
  | EvTransport int
  | EvCheckRetry int
  | EvResponseLogHook int
  | EvDrainBody response
  | EvBackoff int
  | EvSleep duration
  | EvErrorHandler "response option" "error option" int
  | EvClose response

type_synonym 'w outcome = "(panic + response option \<times> error option) \<times> 'w \<times> event list"

text \<open>
  The head of the loop body: \<^verbatim>\<open>req.body()\<close> is called when the request has a
  factory, and the stream becomes the body of the outgoing request.
\<close>

definition rewind ::
  "('w, 'b) Request \<Rightarrow> int \<Rightarrow> 'w \<Rightarrow> event list
     \<Rightarrow> (error + ('w, 'b) http_Request) \<times> 'w \<times> event list" where
  "rewind req i w tr =
     (case body req of
        None \<Rightarrow> (Inr (Request req), w, tr)
      | Some f \<Rightarrow>
          (case f w of
             (Inl e, w') \<Rightarrow> (Inl e, w', tr @ [EvBody i])
           | (Inr b, w') \<Rightarrow> (Inr ((Request req)\<lparr>ReqBody := Some b\<rparr>), w', tr @ [EvBody i])))"

definition log_request ::
  "('w, 'b) Config \<Rightarrow> ('w, 'b) http_Request \<Rightarrow> int \<Rightarrow> 'w \<Rightarrow> event list \<Rightarrow> 'w \<times> event list" where
  "log_request c hreq i w tr =
     (case RequestLogHook c of
        None \<Rightarrow> (w, tr)
      | Some h \<Rightarrow> (h hreq i w, tr @ [EvRequestLogHook i]))"

text \<open>The response hook runs only when the transport returned no error.\<close>

definition log_response ::
  "('w, 'b) Config \<Rightarrow> int \<Rightarrow> response option \<Rightarrow> error option \<Rightarrow> 'w \<Rightarrow> event list
     \<Rightarrow> 'w \<times> event list" where
  "log_response c i resp err w tr =
     (if err \<noteq> None then (w, tr)
      else (case ResponseLogHook c of
              None \<Rightarrow> (w, tr)
            | Some h \<Rightarrow> (h resp w, tr @ [EvResponseLogHook i])))"

definition drain :: "response option \<Rightarrow> error option \<Rightarrow> event list \<Rightarrow> event list" where
  "drain resp err tr =
     (case resp of
        Some r \<Rightarrow> if err = None then tr @ [EvDrainBody r] else tr
      | None \<Rightarrow> tr)"

text \<open>
  One pass through the loop body ends in a \<^verbatim>\<open>return\<close> (or a panic), in the
  \<^verbatim>\<open>break\<close>, or at the end of the body with the next response in hand.
\<close>

datatype 'w step =
    Return "panic + response option \<times> error option" 'w "event list"
  | Break "response option" "error option" 'w "event list"
  | Continue "response option" 'w "event list"

definition decide ::
  "('w, 'b) Config \<Rightarrow> int \<Rightarrow> response option \<Rightarrow> error option \<Rightarrow> bool \<Rightarrow> error option
     \<Rightarrow> 'w \<Rightarrow> event list \<Rightarrow> 'w step" where
  "decide c i resp err checkOK checkErr w tr =
     (if \<not> checkOK
      then Return (Inr (resp, if checkErr \<noteq> None then checkErr else err)) w tr
      else if RetryMax c - i \<le> 0 then Break resp err w tr
      else (case Backoff c of
              None \<Rightarrow> Return (Inl NilDereference) w (drain resp err tr)
            | Some b \<Rightarrow>
                (case b (RetryWaitMin c) (RetryWaitMax c) i resp w of
                   (wait, w') \<Rightarrow>
                     Continue resp w' (drain resp err tr @ [EvBackoff i, EvSleep wait]))))"

definition attempt ::
  "('w, 'b) Config \<Rightarrow> ('w, 'b) Request \<Rightarrow> int \<Rightarrow> response option \<Rightarrow> 'w \<Rightarrow> event list
     \<Rightarrow> 'w step" where
  "attempt c req i resp w tr =
     (case rewind req i w tr of
        (Inl e, w1, tr1) \<Rightarrow> Return (Inr (resp, Some e)) w1 tr1
      | (Inr hreq, w1, tr1) \<Rightarrow>
          (case log_request c hreq i w1 tr1 of (w2, tr2) \<Rightarrow>
             (case HttpClient c of
                None \<Rightarrow> Return (Inl NilDereference) w2 tr2
              | Some t \<Rightarrow>
                  (case t hreq w2 of ((resp', err), w3) \<Rightarrow>
                     (case CheckRetry c of
                        None \<Rightarrow> Return (Inl NilDereference) w3 (tr2 @ [EvTransport i])
                      | Some p \<Rightarrow>
                          (case p (Context hreq w3) resp' err w3 of
                             (Inl pn, w4) \<Rightarrow>
                               Return (Inl pn) w4 (tr2 @ [EvTransport i, EvCheckRetry i])
                           | (Inr (checkOK, checkErr), w4) \<Rightarrow>
                               (case log_response c i resp' err w4
                                       (tr2 @ [EvTransport i, EvCheckRetry i]) of
                                  (w5, tr5) \<Rightarrow>
                                    decide c i resp' err checkOK checkErr w5 tr5)))))))"

text \<open>
  After the loop. The number of tries \<^verbatim>\<open>c.RetryMax+1\<close> is written without
  wrap-around: it could wrap only for the largest \<^verbatim>\<open>int\<close>, after that many attempts.
\<close>

definition giving_up ::
  "('w, 'b) Config \<Rightarrow> ('w, 'b) Request \<Rightarrow> response option \<Rightarrow> error option \<Rightarrow> 'w \<Rightarrow> event list
     \<Rightarrow> 'w outcome" where
  "giving_up c req resp err w tr =
     (case ErrorHandler c of
        Some h \<Rightarrow>
          (case h resp err (RetryMax c + 1) w of
             (r, w') \<Rightarrow> (Inr r, w', tr @ [EvErrorHandler resp err (RetryMax c + 1)]))
      | None \<Rightarrow>
          (Inr (None, Some (GivingUp (Method (Request req)) (URL (Request req)) (RetryMax c + 1))),
           w,
           (case resp of Some r \<Rightarrow> tr @ [EvClose r] | None \<Rightarrow> tr)))"

lemma attempt_Continue_budget:
  "attempt c req i resp w tr = Continue resp' w' tr' \<Longrightarrow> 0 < RetryMax c - i"
  by (auto simp: attempt_def decide_def split: prod.splits sum.splits option.splits if_splits)

text \<open>The loop \<^verbatim>\<open>for i := 0; ; i++\<close>, entered with the response of the pass before.\<close>

function (domintros) do_loop ::
  "('w, 'b) Config \<Rightarrow> ('w, 'b) Request \<Rightarrow> int \<Rightarrow> response option \<Rightarrow> 'w \<Rightarrow> event list
     \<Rightarrow> 'w outcome" where
  "do_loop c req i resp w tr =
     (case attempt c req i resp w tr of
        Return r w' tr' \<Rightarrow> (r, w', tr')
      | Break resp' err w' tr' \<Rightarrow> giving_up c req resp' err w' tr'
      | Continue resp' w' tr' \<Rightarrow> do_loop c req (i + 1) resp' w' tr')"
  by pat_completeness auto

termination
proof (relation "measure (\<lambda>(c, req, i, resp, w, tr). nat (RetryMax c - i))")
  show "wf (measure (\<lambda>(c, req, i, resp, w, tr). nat (RetryMax c - i)))"
    by simp
next
  fix c :: "('w, 'b) Config" and req :: "('w, 'b) Request" and i resp w tr resp' w' tr'
  assume "attempt c req i resp w tr = Continue resp' w' tr'"
  then have "0 < RetryMax c - i"
    by (rule attempt_Continue_budget)
  then show "((c, req, i + 1, resp', w', tr'), (c, req, i, resp, w, tr))
      \<in> measure (\<lambda>(c, req, i, resp, w, tr). nat (RetryMax c - i))"
    by simp
qed

declare do_loop.simps [simp del]

text \<open>
  \<^verbatim>\<open>Do\<close>: the request modifier, then the first log line through \<^verbatim>\<open>c.Logger\<close> (a
  nil interface there panics), then the loop from attempt 0 with no response yet.
\<close>

definition modify ::
  "('w, 'b) Config \<Rightarrow> ('w, 'b) Request \<Rightarrow> 'w \<Rightarrow> ('w, 'b) Request \<times> 'w \<times> event list" where
  "modify c req w =
     (case RequestModifier c of
        None \<Rightarrow> (req, w, [])
      | Some m \<Rightarrow> (case m req w of (req', w') \<Rightarrow> (req', w', [EvRequestModifier])))"

definition Do :: "('w, 'b) Config \<Rightarrow> ('w, 'b) Request \<Rightarrow> 'w \<Rightarrow> 'w outcome" where
  "Do c req w =
     (case modify c req w of
        (req1, w1, tr1) \<Rightarrow>
          if Logger c = None then (Inl NilDereference, w1, tr1)
          else do_loop c req1 0 None w1 tr1)"

text \<open>
  \<open>at_attempt c req w0 req1 i resp w tr\<close>: the call \<open>Do c req w0\<close> stands at the top of
  the loop body for attempt \<open>i\<close>, with the request \<open>req1\<close> it sends, the response
  \<open>resp\<close> of the attempt before, the world \<open>w\<close> and the trace \<open>tr\<close> so far.
\<close>

inductive at_attempt ::
  "('w, 'b) Config \<Rightarrow> ('w, 'b) Request \<Rightarrow> 'w \<Rightarrow> ('w, 'b) Request \<Rightarrow> int \<Rightarrow> response option
     \<Rightarrow> 'w \<Rightarrow> event list \<Rightarrow> bool"
  for c :: "('w, 'b) Config" and req :: "('w, 'b) Request" and w0 :: 'w where
  at_first: "Logger c \<noteq> None \<Longrightarrow> modify c req w0 = (req1, w1, tr1)
      \<Longrightarrow> at_attempt c req w0 req1 0 None w1 tr1"
| at_next: "at_attempt c req w0 req1 i resp w tr
      \<Longrightarrow> attempt c req1 i resp w tr = Continue resp' w' tr'
      \<Longrightarrow> at_attempt c req w0 req1 (i + 1) resp' w' tr'"

text \<open>Counting in a trace: calls of the transport, of the error handler, waits.\<close>

fun is_transport :: "event \<Rightarrow> bool" where
  "is_transport (EvTransport i) = True"
| "is_transport _ = False"

fun is_handler :: "event \<Rightarrow> bool" where
  "is_handler (EvErrorHandler resp err n) = True"
| "is_handler _ = False"

fun is_wait :: "event \<Rightarrow> bool" where
  "is_wait (EvBackoff i) = True"
| "is_wait (EvSleep d) = True"
| "is_wait _ = False"

definition attempts :: "event list \<Rightarrow> nat" where
  "attempts tr = length (filter is_transport tr)"

fun step_trace :: "'w step \<Rightarrow> event list" where
  "step_trace (Return r w tr) = tr"
| "step_trace (Break resp err w tr) = tr"
| "step_trace (Continue resp w tr) = tr"

fun continues :: "'w step \<Rightarrow> bool" where
  "continues (Continue resp w tr) = True"
| "continues _ = False"

section \<open>\<^verbatim>\<open>NewRequest\<close> and the body factory\<close>

text \<open>
  The payloads \<^verbatim>\<open>NewRequest\<close> accepts are reference types: a byte slice, a
  \<^verbatim>\<open>*bytes.Buffer\<close> and the readers are objects the caller keeps a handle to, and the
  factory stored in the request reads them again at every call. The world is a store of
  such objects. An object has its bytes and a read offset; \<open>seek_error\<close> is the error
  its \<^verbatim>\<open>Seek\<close> fails with, if it does (a pipe, a closed file), and \<open>read_error\<close> the
  error its \<^verbatim>\<open>Read\<close> ends with instead of \<^verbatim>\<open>io.EOF\<close>.
\<close>

record obj =
  contents :: "char list"
  offset :: nat
  seek_error :: "error option"
  read_error :: "error option"
  is_LenReader :: bool
  is_Closer :: bool
  closed :: bool

type_synonym heap = "nat \<Rightarrow> obj"

text \<open>
  A stream handed out by a factory: a fresh \<^verbatim>\<open>bytes.NewReader\<close> over some bytes, a
  reader object of the store, or \<^verbatim>\<open>ioutil.NopCloser\<close> around one.
\<close>

datatype stream = BytesReader "char list" | ObjReader nat | NopCloser nat

datatype rawBody =
    RawNil
  | RawReaderFunc "(heap, stream) ReaderFunc"
  | RawFunc "(heap, stream) ReaderFunc"
  | RawByteSlice nat
  | RawBytesBuffer nat
  | RawBytesReader nat
  | RawReadSeeker nat
  | RawReader nat
  | RawOther string

text \<open>\<^verbatim>\<open>Len()\<close> of a reader object: the bytes not yet read.\<close>

definition Len :: "obj \<Rightarrow> int" where
  "Len ob = int (length (contents ob) - offset ob)"

text \<open>\<^verbatim>\<open>ioutil.ReadAll\<close>: everything from the offset on, and the offset moves to the end.\<close>

definition ReadAll :: "nat \<Rightarrow> heap \<Rightarrow> (char list \<times> error option) \<times> heap" where
  "ReadAll a h =
     ((drop (offset (h a)) (contents (h a)), read_error (h a)),
      h(a := (h a)\<lparr>offset := length (contents (h a))\<rparr>))"

text \<open>\<^verbatim>\<open>raw.Seek(0, 0)\<close>: the offset returns to 0 unless the seek fails.\<close>

definition Seek0 :: "nat \<Rightarrow> heap \<Rightarrow> error option \<times> heap" where
  "Seek0 a h =
     (case seek_error (h a) of
        Some e \<Rightarrow> (Some e, h)
      | None \<Rightarrow> (None, h(a := (h a)\<lparr>offset := 0\<rparr>)))"

text \<open>
  The two factory cases call the factory once, take the length of the stream when it is
  a \<^verbatim>\<open>LenReader\<close> and close it when it is an \<^verbatim>\<open>io.Closer\<close>.
\<close>

definition stream_Len :: "stream \<Rightarrow> heap \<Rightarrow> int" where
  "stream_Len s h =
     (case s of
        BytesReader bs \<Rightarrow> int (length bs)
      | ObjReader a \<Rightarrow> if is_LenReader (h a) then Len (h a) else 0
      | NopCloser a \<Rightarrow> 0)"

definition stream_Close :: "stream \<Rightarrow> heap \<Rightarrow> heap" where
  "stream_Close s h =
     (case s of
        ObjReader a \<Rightarrow> if is_Closer (h a) then h(a := (h a)\<lparr>closed := True\<rparr>) else h
      | _ \<Rightarrow> h)"

definition probe ::
  "(heap, stream) ReaderFunc \<Rightarrow> heap
     \<Rightarrow> (error + (heap, stream) ReaderFunc option \<times> int) \<times> heap" where
  "probe f h =
     (case f h of
        (Inl e, h') \<Rightarrow> (Inl e, h')
      | (Inr tmp, h') \<Rightarrow> (Inr (Some f, stream_Len tmp h'), stream_Close tmp h'))"

definition buffered ::
  "nat \<Rightarrow> heap \<Rightarrow> (error + (heap, stream) ReaderFunc option \<times> int) \<times> heap" where
  "buffered a h =
     (case ReadAll a h of
        ((buf, Some e), h') \<Rightarrow> (Inl e, h')
      | ((buf, None), h') \<Rightarrow>
          (Inr (Some (\<lambda>h. (Inr (BytesReader buf), h)), int (length buf)), h'))"

text \<open>The type switch of \<^verbatim>\<open>NewRequest\<close>: the factory and the content length.\<close>

fun payload ::
  "rawBody \<Rightarrow> heap \<Rightarrow> (error + (heap, stream) ReaderFunc option \<times> int) \<times> heap" where
  "payload RawNil h = (Inr (None, 0), h)"
| "payload (RawReaderFunc f) h = probe f h"
| "payload (RawFunc f) h = probe f h"
| "payload (RawByteSlice a) h =
     (Inr (Some (\<lambda>h. (Inr (BytesReader (contents (h a))), h)), int (length (contents (h a)))), h)"
| "payload (RawBytesBuffer a) h =
     (Inr (Some (\<lambda>h. (Inr (BytesReader (drop (offset (h a)) (contents (h a)))), h)), Len (h a)), h)"
| "payload (RawBytesReader a) h = buffered a h"
| "payload (RawReadSeeker a) h =
     (Inr (Some (\<lambda>h. (Inr (NopCloser a), snd (Seek0 a h))),
           if is_LenReader (h a) then Len (h a) else 0), h)"
| "payload (RawReader a) h = buffered a h"
| "payload (RawOther t) h = (Inl (ErrorString (''cannot handle type '' @ t)), h)"

text \<open>
  \<^verbatim>\<open>http.NewRequest(method, url, nil)\<close> belongs to the standard library: the parameter
  \<open>http_NewRequest\<close> gives its error or the method and URL of the request it builds,
  whose context is never cancelled.
\<close>

definition NewRequest ::
  "(string \<Rightarrow> string \<Rightarrow> error + string \<times> string) \<Rightarrow> string \<Rightarrow> string \<Rightarrow> rawBody \<Rightarrow> heap
     \<Rightarrow> (error + (heap, stream) Request) \<times> heap" where
  "NewRequest http_NewRequest method url rawBody h =
     (case payload rawBody h of
        (Inl e, h') \<Rightarrow> (Inl e, h')
      | (Inr (bd, contentLength), h') \<Rightarrow>
          (case http_NewRequest method url of
             Inl e \<Rightarrow> (Inl e, h')
           | Inr (m, u) \<Rightarrow>
               (Inr \<lparr>body = bd,
                     Request = \<lparr>Method = m, URL = u, ReqBody = None,
                                ContentLength = contentLength, Context = (\<lambda>_. None)\<rparr>\<rparr>, h')))"

text \<open>
  What one attempt does with the factory: it obtains a stream and the transport reads it
  to its end. \<open>replay n\<close> does so \<open>n\<close> times in a row and lists what was read.
\<close>

definition read_stream :: "stream \<Rightarrow> heap \<Rightarrow> (char list \<times> error option) \<times> heap" where
  "read_stream s h =
     (case s of
        BytesReader bs \<Rightarrow> ((bs, None), h)
      | ObjReader a \<Rightarrow> ReadAll a h
      | NopCloser a \<Rightarrow> ReadAll a h)"

definition obtain_read :: "(heap, stream) ReaderFunc \<Rightarrow> heap \<Rightarrow> (error + char list) \<times> heap" where
  "obtain_read f h =
     (case f h of
        (Inl e, h') \<Rightarrow> (Inl e, h')
      | (Inr s, h') \<Rightarrow> (case read_stream s h' of ((bs, _), h'') \<Rightarrow> (Inr bs, h'')))"

fun replay :: "nat \<Rightarrow> (heap, stream) ReaderFunc \<Rightarrow> heap \<Rightarrow> (error + char list) list" where
  "replay 0 f h = []"
| "replay (Suc n) f h = (case obtain_read f h of (r, h') \<Rightarrow> r # replay n f h')"

section \<open>Stubs for concrete runs\<close>

text \<open>
  A transport stub that answers every request with the same status and counts its calls
  in the world, the zero value of \<^verbatim>\<open>Config\<close>, a client built from it by \<open>init\<close>, a
  request, and a body factory that works once.
\<close>

definition stub_transport :: "int \<Rightarrow> (nat, string) transport" where
  "stub_transport status hreq w = ((Some \<lparr>StatusCode = status, Body = w\<rparr>, None), Suc w)"

definition zero_Config :: "(nat, string) Config" where
  "zero_Config =
     \<lparr>Metrics = False, RetryMax = 0, RetryWaitMin = 0, RetryWaitMax = 0, Logger = None,
      HttpClient = None, RequestModifier = None, RequestLogHook = None,
      ResponseLogHook = None, CheckRetry = None, Backoff = None, ErrorHandler = None\<rparr>"

definition stub_client :: "int \<Rightarrow> int \<Rightarrow> nat ErrorHandler option \<Rightarrow> (nat, string) Config" where
  "stub_client status m eh =
     init (stub_transport status) (- (2 ^ 63))
       (zero_Config\<lparr>RetryMax := m, RetryWaitMin := second,
                    HttpClient := Some (stub_transport status), ErrorHandler := eh\<rparr>)"

definition stub_body :: "(nat, string) ReaderFunc" where
  "stub_body w = (if w = 0 then (Inr ''payload'', w) else (Inl (ErrorString ''body consumed''), w))"

definition stub_request :: "(nat, string) ReaderFunc option \<Rightarrow> (nat, string) Request" where
  "stub_request bd =
     \<lparr>body = bd,
      Request = \<lparr>Method = ''POST'', URL = ''http://example.test/'', ReqBody = None,
                 ContentLength = 0, Context = (\<lambda>_. None)\<rparr>\<rparr>"

definition r503 :: "nat \<Rightarrow> response" where
  "r503 n = \<lparr>StatusCode = 503, Body = n\<rparr>"

definition two_passes :: "event list" where
  "two_passes =
     [EvTransport 0, EvCheckRetry 0, EvDrainBody (r503 0), EvBackoff 0, EvSleep second,
      EvTransport 1, EvCheckRetry 1, EvDrainBody (r503 1), EvBackoff 1, EvSleep (2 * second)]"

text \<open>
  A store whose objects hold the bytes \<open>abc\<close> and cannot seek, as a file opened on a
  pipe, and an \<^verbatim>\<open>http.NewRequest\<close> that accepts every method and URL.
\<close>

definition pipe_heap :: heap where
  "pipe_heap =
     (\<lambda>_. \<lparr>contents = ''abc'', offset = 0, seek_error = Some (ErrorString ''illegal seek''),
           read_error = None, is_LenReader = False, is_Closer = False, closed = False\<rparr>)"

definition http_ok :: "string \<Rightarrow> string \<Rightarrow> error + string \<times> string" where
  "http_ok m u = Inr (m, u)"

section \<open>Properties of the loop body and of the loop\<close>

lemma Do_at_attempt:
  "at_attempt c req w0 req1 i resp w tr \<Longrightarrow> Do c req w0 = do_loop c req1 i resp w tr"
proof (induction rule: at_attempt.induct)
  case (at_first req1 w1 tr1)
  then show ?case by (auto simp: Do_def)
next
  case (at_next req1 i resp w tr resp' w' tr')
  then show ?case by (simp add: do_loop.simps [of c req1 i])
qed

lemma rewind_trace:
  "rewind req i w tr = (x, w1, tr1) \<Longrightarrow> tr1 = tr \<or> tr1 = tr @ [EvBody i]"
  by (auto simp: rewind_def split: option.splits prod.splits sum.splits)

lemma log_request_trace:
  "log_request c hreq i w tr = (w2, tr2) \<Longrightarrow> tr2 = tr \<or> tr2 = tr @ [EvRequestLogHook i]"
  by (auto simp: log_request_def split: option.splits)

lemma log_response_trace:
  "log_response c i resp err w tr = (w5, tr5) \<Longrightarrow> tr5 = tr \<or> tr5 = tr @ [EvResponseLogHook i]"
  by (auto simp: log_response_def split: option.splits if_splits)

lemma drain_trace:
  "drain resp err tr = tr \<or> (\<exists>r. drain resp err tr = tr @ [EvDrainBody r])"
  by (auto simp: drain_def split: option.splits)

lemma decide_trace:
  "\<exists>evs. step_trace (decide c i resp err ok ce w tr) = tr @ evs
     \<and> filter is_handler evs = [] \<and> filter is_transport evs = []
     \<and> (\<not> continues (decide c i resp err ok ce w tr) \<longrightarrow> filter is_wait evs = [])"
  using drain_trace [of resp err tr]
  by (auto simp: decide_def split: option.splits prod.splits)

lemma attempt_trace:
  "\<exists>evs. step_trace (attempt c req i resp w tr) = tr @ evs
     \<and> filter is_handler evs = []
     \<and> length (filter is_transport evs) \<le> 1
     \<and> (continues (attempt c req i resp w tr) \<longrightarrow> length (filter is_transport evs) = 1)
     \<and> (\<not> continues (attempt c req i resp w tr) \<longrightarrow> filter is_wait evs = [])"
proof (cases "rewind req i w tr")
  case (fields x w1 tr1)
  note rw = this
  from rewind_trace [OF rw] obtain e1 where e1: "tr1 = tr @ e1" "filter is_handler e1 = []"
    "filter is_transport e1 = []" "filter is_wait e1 = []"
    by auto
  show ?thesis
  proof (cases x)
    case (Inl e)
    with rw e1 show ?thesis by (simp add: attempt_def)
  next
    case (Inr hreq)
    obtain w2 tr2 where lq: "log_request c hreq i w1 tr1 = (w2, tr2)"
      by (cases "log_request c hreq i w1 tr1") auto
    from log_request_trace [OF lq] e1 obtain e2 where e2: "tr2 = tr @ e2"
      "filter is_handler e2 = []" "filter is_transport e2 = []" "filter is_wait e2 = []"
      by auto
    show ?thesis
    proof (cases "HttpClient c")
      case None
      with rw Inr lq e2 show ?thesis by (simp add: attempt_def)
    next
      case (Some t)
      obtain resp' err w3 where tq: "t hreq w2 = ((resp', err), w3)"
        by (cases "t hreq w2") auto
      show ?thesis
      proof (cases "CheckRetry c")
        case None
        with rw Inr lq e2 Some tq show ?thesis by (simp add: attempt_def)
      next
        case (Some p)
        note p = this
        obtain chk w4 where pq: "p (Context hreq w3) resp' err w3 = (chk, w4)"
          by (cases "p (Context hreq w3) resp' err w3") auto
        show ?thesis
        proof (cases chk)
          case (Inl pn)
          with rw Inr lq e2 \<open>HttpClient c = Some t\<close> tq p pq show ?thesis
            by (simp add: attempt_def)
        next
          case (Inr okce)
          obtain ok ce where okce: "okce = (ok, ce)" by (cases okce) auto
          obtain w5 tr5 where lr:
            "log_response c i resp' err w4 (tr2 @ [EvTransport i, EvCheckRetry i]) = (w5, tr5)"
            by (cases "log_response c i resp' err w4 (tr2 @ [EvTransport i, EvCheckRetry i])") auto
          from log_response_trace [OF lr] e2 obtain e5 where e5: "tr5 = tr @ e5"
            "filter is_handler e5 = []" "length (filter is_transport e5) = 1"
            "filter is_wait e5 = []"
            by auto
          have att: "attempt c req i resp w tr = decide c i resp' err ok ce w5 tr5"
            using rw \<open>x = Inr hreq\<close> lq \<open>HttpClient c = Some t\<close> tq p pq Inr okce lr
            by (simp add: attempt_def)
          from decide_trace [of c i resp' err ok ce w5 tr5] obtain e6 where e6:
            "step_trace (decide c i resp' err ok ce w5 tr5) = tr5 @ e6"
            "filter is_handler e6 = []" "filter is_transport e6 = []"
            "\<not> continues (decide c i resp' err ok ce w5 tr5) \<longrightarrow> filter is_wait e6 = []"
            by blast
          show ?thesis
            unfolding att using e5 e6 by (intro exI [of _ "e5 @ e6"]) simp
        qed
      qed
    qed
  qed
qed

lemma do_loop_terminates: "do_loop_dom (c, req, i, resp, w, tr)"
proof (induction "nat (RetryMax c - i)" arbitrary: i resp w tr)
  case 0
  show ?case
  proof (rule do_loop.domintros)
    fix resp' w' tr'
    assume "attempt c req i resp w tr = Continue resp' w' tr'"
    then have "0 < RetryMax c - i" by (rule attempt_Continue_budget)
    with 0 show "do_loop_dom (c, req, i + 1, resp', w', tr')" by simp
  qed
next
  case (Suc n)
  show ?case
  proof (rule do_loop.domintros)
    fix resp' w' tr'
    assume "attempt c req i resp w tr = Continue resp' w' tr'"
    from Suc(2) have "n = nat (RetryMax c - (i + 1))" by simp
    then show "do_loop_dom (c, req, i + 1, resp', w', tr')" by (rule Suc(1))
  qed
qed

lemma giving_up_trace:
  "\<exists>evs. snd (snd (giving_up c req resp err w tr)) = tr @ evs
     \<and> filter is_transport evs = [] \<and> filter is_wait evs = []"
  by (auto simp: giving_up_def split: option.splits prod.splits)

lemma do_loop_attempts:
  "attempts (snd (snd (do_loop c req i resp w tr)))
     \<le> attempts tr + nat (max 1 (RetryMax c - i + 1))"
proof (induction c req i resp w tr rule: do_loop.induct)
  case (1 c req i resp w tr)
  from attempt_trace [of c req i resp w tr] obtain evs where evs:
    "step_trace (attempt c req i resp w tr) = tr @ evs"
    "length (filter is_transport evs) \<le> 1"
    by blast
  show ?case
  proof (cases "attempt c req i resp w tr")
    case (Return r w' tr')
    with evs show ?thesis
      by (simp add: do_loop.simps [of c req i] attempts_def)
  next
    case (Break resp' err w' tr')
    from giving_up_trace [of c req resp' err w' tr'] obtain gs where
      "snd (snd (giving_up c req resp' err w' tr')) = tr' @ gs" "filter is_transport gs = []"
      by blast
    with Break evs show ?thesis
      by (simp add: do_loop.simps [of c req i] attempts_def)
  next
    case (Continue resp' w' tr')
    then have budget: "0 < RetryMax c - i" by (rule attempt_Continue_budget)
    from "1.IH" [OF Continue] have
      "attempts (snd (snd (do_loop c req (i + 1) resp' w' tr')))
         \<le> attempts tr' + nat (max 1 (RetryMax c - (i + 1) + 1))" .
    moreover from Continue evs have "attempts tr' \<le> attempts tr + 1"
      by (simp add: attempts_def)
    ultimately show ?thesis
      using budget Continue by (simp add: do_loop.simps [of c req i] max_def split: if_splits)
  qed
qed

lemma modify_trace:
  "modify c req w = (req1, w1, tr1) \<Longrightarrow> filter is_transport tr1 = [] \<and> filter is_handler tr1 = []"
  by (auto simp: modify_def split: option.splits prod.splits)

lemma Do_attempts:
  assumes "0 \<le> RetryMax c"
  shows "attempts (snd (snd (Do c req w))) \<le> nat (RetryMax c + 1)"
proof -
  obtain req1 w1 tr1 where m: "modify c req w = (req1, w1, tr1)"
    by (cases "modify c req w") auto
  from modify_trace [OF m] have a: "attempts tr1 = 0" by (simp add: attempts_def)
  show ?thesis
  proof (cases "Logger c = None")
    case True
    with m a show ?thesis by (simp add: Do_def)
  next
    case False
    with m have "Do c req w = do_loop c req1 0 None w1 tr1" by (auto simp: Do_def)
    with do_loop_attempts [of c req1 0 None w1 tr1] a assms show ?thesis
      by (simp add: max_def)
  qed
qed

lemma attempt_declined:
  assumes "rewind req i w tr = (Inr hreq, w1, tr1)"
    and "log_request c hreq i w1 tr1 = (w2, tr2)"
    and "HttpClient c = Some t" and "t hreq w2 = ((resp', err), w3)"
    and "CheckRetry c = Some p"
    and "p (Context hreq w3) resp' err w3 = (Inr (False, checkErr), w4)"
    and "log_response c i resp' err w4 (tr2 @ [EvTransport i, EvCheckRetry i]) = (w5, tr5)"
  shows "attempt c req i resp w tr =
           Return (Inr (resp', if checkErr \<noteq> None then checkErr else err)) w5 tr5"
  using assms by (simp add: attempt_def decide_def)

lemma attempt_exhausted:
  assumes "rewind req i w tr = (Inr hreq, w1, tr1)"
    and "log_request c hreq i w1 tr1 = (w2, tr2)"
    and "HttpClient c = Some t" and "t hreq w2 = ((resp', err), w3)"
    and "CheckRetry c = Some p"
    and "p (Context hreq w3) resp' err w3 = (Inr (True, checkErr), w4)"
    and "log_response c i resp' err w4 (tr2 @ [EvTransport i, EvCheckRetry i]) = (w5, tr5)"
    and "RetryMax c - i \<le> 0"
  shows "attempt c req i resp w tr = Break resp' err w5 tr5"
  using assms by (simp add: attempt_def decide_def)

lemma at_attempt_no_handler:
  "at_attempt c req w0 req1 i resp w tr \<Longrightarrow> filter is_handler tr = []"
proof (induction rule: at_attempt.induct)
  case (at_first req1 w1 tr1)
  then show ?case by (simp add: modify_trace)
next
  case (at_next req1 i resp w tr resp' w' tr')
  from attempt_trace [of c req1 i resp w tr] at_next show ?case by auto
qed

lemma at_attempt_attempts:
  "at_attempt c req w0 req1 i resp w tr \<Longrightarrow> 0 \<le> i \<and> int (attempts tr) = i"
proof (induction rule: at_attempt.induct)
  case (at_first req1 w1 tr1)
  then show ?case by (simp add: modify_trace attempts_def)
next
  case (at_next req1 i resp w tr resp' w' tr')
  from attempt_trace [of c req1 i resp w tr] at_next show ?case
    by (auto simp: attempts_def)
qed

lemma at_attempt_bound:
  "at_attempt c req w0 req1 i resp w tr \<Longrightarrow> i \<le> max 0 (RetryMax c)"
proof (induction rule: at_attempt.induct)
  case (at_first req1 w1 tr1)
  show ?case by simp
next
  case (at_next req1 i resp w tr resp' w' tr')
  from attempt_Continue_budget [OF at_next(2)] show ?case by simp
qed

lemma body_failure_returns:
  assumes "at_attempt c req w0 req1 i resp w tr"
    and "rewind req1 i w tr = (Inl e, w1, tr1)"
  shows "Do c req w0 = (Inr (resp, Some e), w1, tr @ [EvBody i])"
proof -
  have tr1: "tr1 = tr @ [EvBody i]"
    using assms(2) by (auto simp: rewind_def split: option.splits prod.splits sum.splits)
  have "attempt c req1 i resp w tr = Return (Inr (resp, Some e)) w1 tr1"
    using assms(2) by (simp add: attempt_def)
  with Do_at_attempt [OF assms(1)] tr1 show ?thesis
    by (simp add: do_loop.simps [of c req1 i])
qed

section \<open>Properties of the float64 model\<close>

lemma floor_log2_bounds:
  assumes "0 < x"
  shows "2 powi (floor_log2 x) \<le> x \<and> x < 2 powi (floor_log2 x + 1)"
proof -
  obtain a b where ab: "quotient_of x = (a, b)" by (cases "quotient_of x") auto
  then have b: "0 < b" and x: "x = of_int a / of_int b"
    using quotient_of_denom_pos quotient_of_div by blast+
  with assms have a: "0 < a"
    by (simp add: zero_less_divide_iff)
  define la lb where "la = bitlen a" and "lb = bitlen b"
  from bitlen_bounds [OF a] have a1: "2 ^ nat (la - 1) \<le> a" and a2: "a < 2 ^ nat la"
    by (simp_all add: la_def)
  from bitlen_bounds [OF b] have b1: "2 ^ nat (lb - 1) \<le> b" and b2: "b < 2 ^ nat lb"
    by (simp_all add: lb_def)
  have la: "1 \<le> la" and lb: "1 \<le> lb"
    using a b bitlen_eq_zero_iff [of a] bitlen_eq_zero_iff [of b] bitlen_nonneg [of a] bitlen_nonneg [of b]
    by (auto simp: la_def lb_def)
  have ra1: "(2::rat) powi (la - 1) \<le> of_int a"
  proof -
    have "(of_int (2 ^ nat (la - 1)) :: rat) \<le> of_int a" using a1 by (rule of_int_le_iff [THEN iffD2])
    then show ?thesis using la by (simp add: power_int_def)
  qed
  have ra2: "(of_int a :: rat) < 2 powi la"
  proof -
    have "(of_int a :: rat) < of_int (2 ^ nat la)" using a2 by (rule of_int_less_iff [THEN iffD2])
    then show ?thesis using la by (simp add: power_int_def)
  qed
  have rb1: "(2::rat) powi (lb - 1) \<le> of_int b"
  proof -
    have "(of_int (2 ^ nat (lb - 1)) :: rat) \<le> of_int b" using b1 by (rule of_int_le_iff [THEN iffD2])
    then show ?thesis using lb by (simp add: power_int_def)
  qed
  have rb2: "(of_int b :: rat) < 2 powi lb"
  proof -
    have "(of_int b :: rat) < of_int (2 ^ nat lb)" using b2 by (rule of_int_less_iff [THEN iffD2])
    then show ?thesis using lb by (simp add: power_int_def)
  qed
  have bpos: "(0::rat) < of_int b" using b by simp
  have up: "x < 2 powi (la - lb + 1)"
  proof -
    have "of_int a * (2::rat) powi (lb - 1) \<le> of_int a * of_int b"
      using rb1 a by (intro mult_left_mono) simp_all
    also have "\<dots> < 2 powi la * of_int b"
      using ra2 bpos by (intro mult_strict_right_mono)
    finally have "of_int a * (2::rat) powi (lb - 1) < 2 powi la * of_int b" .
    then have "x * 2 powi (lb - 1) < 2 powi la"
      using bpos by (simp add: x field_simps)
    then have "x < 2 powi la / 2 powi (lb - 1)"
      by (simp add: pos_less_divide_eq)
    also have "\<dots> = 2 powi (la - lb + 1)"
      by (simp add: power_int_diff [symmetric] algebra_simps)
    finally show ?thesis .
  qed
  have lo: "2 powi (la - lb - 1) < x"
  proof -
    have "(2::rat) powi (la - 1) * of_int b \<le> of_int a * of_int b"
      using ra1 bpos by (intro mult_right_mono) simp_all
    also have "\<dots> < of_int a * 2 powi lb"
      using rb2 a by (intro mult_strict_left_mono) simp_all
    finally have "(2::rat) powi (la - 1) * of_int b < of_int a * 2 powi lb" .
    then have "2 powi (la - 1) / 2 powi lb < x"
      using bpos by (simp add: x field_simps)
    moreover have "(2::rat) powi (la - 1) / 2 powi lb = 2 powi (la - lb - 1)"
      by (simp add: power_int_diff [symmetric] algebra_simps)
    ultimately show ?thesis by simp
  qed
  show ?thesis
    using up lo ab
    by (auto simp: floor_log2_def la_def lb_def Let_def not_le)
qed

lemma floor_log2_unique:
  assumes "0 < x" and "2 powi e \<le> x" and "x < 2 powi (e + 1)"
  shows "floor_log2 x = e"
proof (rule ccontr)
  assume ne: "floor_log2 x \<noteq> e"
  from floor_log2_bounds [OF assms(1)]
  have lo: "2 powi (floor_log2 x) \<le> x" and hi: "x < 2 powi (floor_log2 x + 1)"
    by simp_all
  show False
  proof (cases "floor_log2 x < e")
    case True
    then have "(2::rat) powi (floor_log2 x + 1) \<le> 2 powi e"
      by (intro power_int_increasing) simp_all
    with hi assms(2) show False by simp
  next
    case False
    with ne have "(2::rat) powi (e + 1) \<le> 2 powi (floor_log2 x)"
      by (intro power_int_increasing) simp_all
    with lo assms(3) show False by simp
  qed
qed

lemma floor_log2_mono:
  assumes "0 < x" and "x \<le> y"
  shows "floor_log2 x \<le> floor_log2 y"
proof (rule ccontr)
  assume "\<not> floor_log2 x \<le> floor_log2 y"
  then have "(2::rat) powi (floor_log2 y + 1) \<le> 2 powi (floor_log2 x)"
    by (intro power_int_increasing) simp_all
  moreover from assms have "0 < y" by simp
  ultimately show False
    using floor_log2_bounds [OF assms(1)] floor_log2_bounds [OF \<open>0 < y\<close>] assms(2) by simp
qed

lemma round_half_even_cases:
  "round_half_even t = \<lfloor>t\<rfloor> \<or> round_half_even t = \<lfloor>t\<rfloor> + 1"
  by (simp add: round_half_even_def Let_def)

lemma round_half_even_of_int [simp]: "round_half_even (of_int n) = n"
  by (simp add: round_half_even_def)

lemma round_half_even_error: "\<bar>of_int (round_half_even t) - t\<bar> \<le> 1 / 2"
proof -
  have "of_int \<lfloor>t\<rfloor> \<le> t" and "t < of_int \<lfloor>t\<rfloor> + 1" by linarith+
  then show ?thesis
    by (auto simp: round_half_even_def Let_def abs_le_iff)
qed

lemma round_half_even_mono:
  assumes "s \<le> t"
  shows "round_half_even s \<le> round_half_even t"
proof (cases "\<lfloor>s\<rfloor> = \<lfloor>t\<rfloor>")
  case True
  with assms show ?thesis
    by (auto simp: round_half_even_def Let_def)
next
  case False
  with assms have "\<lfloor>s\<rfloor> + 1 \<le> \<lfloor>t\<rfloor>"
    using floor_mono [OF assms] by simp
  moreover have "round_half_even s \<le> \<lfloor>s\<rfloor> + 1"
    using round_half_even_cases [of s] by auto
  moreover have "\<lfloor>t\<rfloor> \<le> round_half_even t"
    using round_half_even_cases [of t] by auto
  ultimately show ?thesis by simp
qed

lemma round_half_even_le: "t \<le> of_int n \<Longrightarrow> round_half_even t \<le> n"
  using round_half_even_mono [of t "of_int n"] by simp

lemma round_half_even_ge: "of_int n \<le> t \<Longrightarrow> n \<le> round_half_even t"
  using round_half_even_mono [of "of_int n" t] by simp

lemma round_half_even_below: "t < of_int n - 1 / 2 \<Longrightarrow> round_half_even t \<le> n - 1"
proof -
  assume "t < of_int n - 1 / 2"
  moreover have "of_int (round_half_even t) \<le> t + 1 / 2"
    using round_half_even_error [of t] by linarith
  ultimately have "(of_int (round_half_even t) :: rat) < of_int n" by simp
  then show ?thesis by simp
qed

lemma f64_round_form:
  assumes "x \<noteq> 0"
  defines "e \<equiv> max (floor_log2 \<bar>x\<bar>) (- 1022)"
  defines "q \<equiv> (2::rat) powi (e - 52)"
  defines "j \<equiv> round_half_even (x / q)"
  shows "f64_round x =
           (if 2 powi 1024 \<le> \<bar>of_int j * q\<bar> then (if 0 < x then PInf else NInf)
            else Fin (of_int j * q))"
    and "- (2 ^ 53) \<le> j" and "j \<le> 2 ^ 53"
    and "0 < x \<Longrightarrow> 0 \<le> j" and "x < 0 \<Longrightarrow> j \<le> 0"
    and "- 1022 \<le> floor_log2 \<bar>x\<bar> \<Longrightarrow> 2 ^ 52 \<le> \<bar>j\<bar>"
proof -
  show "f64_round x =
           (if 2 powi 1024 \<le> \<bar>of_int j * q\<bar> then (if 0 < x then PInf else NInf)
            else Fin (of_int j * q))"
    using assms by (simp add: f64_round_def Let_def)
  have q: "0 < q" by (simp add: q_def)
  have ax: "0 < \<bar>x\<bar>" using assms(1) by simp
  from floor_log2_bounds [OF ax]
  have lo: "2 powi (floor_log2 \<bar>x\<bar>) \<le> \<bar>x\<bar>" and hi: "\<bar>x\<bar> < 2 powi (floor_log2 \<bar>x\<bar> + 1)"
    by simp_all
  have "(2::rat) powi (floor_log2 \<bar>x\<bar> + 1) \<le> 2 powi (e + 1)"
    by (intro power_int_increasing) (simp_all add: e_def)
  with hi have "\<bar>x\<bar> < 2 powi (e + 1)" by simp
  also have "(2::rat) powi (e + 1) = 2 ^ 53 * q"
    by (simp add: q_def power_int_diff power_int_add)
  finally have "\<bar>x\<bar> / q < 2 ^ 53"
    using q by (simp add: pos_divide_less_eq)
  then have b: "\<bar>x / q\<bar> < 2 ^ 53"
    using q by (simp add: abs_divide)
  then have "x / q < 2 ^ 53" and "- (2 ^ 53) < x / q"
    by linarith+
  then have "x / q \<le> of_int (2 ^ 53)" and "of_int (- (2 ^ 53)) \<le> x / q"
    by simp_all
  then show "- (2 ^ 53) \<le> j" and "j \<le> 2 ^ 53"
    unfolding j_def by (blast intro: round_half_even_le round_half_even_ge)+
  show "0 \<le> j" if "0 < x"
  proof -
    from that q have "of_int 0 \<le> x / q" by simp
    then show ?thesis unfolding j_def by (rule round_half_even_ge)
  qed
  show "j \<le> 0" if "x < 0"
  proof -
    from that q have "x / q \<le> of_int 0" by (simp add: divide_le_0_iff)
    then show ?thesis unfolding j_def by (rule round_half_even_le)
  qed
  show "2 ^ 52 \<le> \<bar>j\<bar>" if "- 1022 \<le> floor_log2 \<bar>x\<bar>"
  proof -
    from that have e: "e = floor_log2 \<bar>x\<bar>" by (simp add: e_def)
    have "(2::rat) powi e = 2 ^ 52 * q"
      by (simp add: q_def power_int_diff)
    with lo e have "2 ^ 52 * q \<le> \<bar>x\<bar>" by simp
    then have c: "2 ^ 52 \<le> \<bar>x\<bar> / q"
      using q by (simp add: pos_le_divide_eq)
    show ?thesis
    proof (cases "0 < x")
      case True
      with c have "of_int (2 ^ 52) \<le> x / q" by simp
      then have "2 ^ 52 \<le> j" unfolding j_def by (rule round_half_even_ge)
      then show ?thesis by simp
    next
      case False
      with assms(1) c have "x / q \<le> of_int (- (2 ^ 52))" by simp
      then have "j \<le> - (2 ^ 52)" unfolding j_def by (rule round_half_even_le)
      then show ?thesis by simp
    qed
  qed
qed

lemma f64_round_exact:
  assumes "j \<noteq> 0" and "\<bar>j\<bar> < 2 ^ 53" and "- 1074 \<le> s"
  shows "f64_round (of_int j * 2 powi s) =
           (if 2 powi 1024 \<le> \<bar>of_int j * 2 powi s :: rat\<bar> then (if 0 < j then PInf else NInf)
            else Fin (of_int j * 2 powi s))"
proof -
  define x :: rat where "x = of_int j * 2 powi s"
  define e where "e = max (floor_log2 \<bar>x\<bar>) (- 1022)"
  define q :: rat where "q = 2 powi (e - 52)"
  have x0: "x \<noteq> 0" using assms(1) by (simp add: x_def)
  have ax: "\<bar>x\<bar> = of_int \<bar>j\<bar> * 2 powi s"
    by (simp add: x_def abs_mult)
  have "(of_int \<bar>j\<bar> :: rat) < of_int (2 ^ 53)"
    using assms(2) by (rule of_int_less_iff [THEN iffD2])
  then have "\<bar>x\<bar> < 2 ^ 53 * 2 powi s"
    unfolding ax by (intro mult_strict_right_mono) simp_all
  also have "\<dots> = 2 powi (s + 53)"
    by (simp add: power_int_add)
  finally have hi: "\<bar>x\<bar> < 2 powi (s + 53)" .
  have "floor_log2 \<bar>x\<bar> < s + 53"
  proof (rule ccontr)
    assume "\<not> floor_log2 \<bar>x\<bar> < s + 53"
    then have "(2::rat) powi (s + 53) \<le> 2 powi (floor_log2 \<bar>x\<bar>)"
      by (intro power_int_increasing) simp_all
    with floor_log2_bounds [of "\<bar>x\<bar>"] x0 hi show False by simp
  qed
  with assms(3) have k: "0 \<le> s + 52 - e"
    by (simp add: e_def)
  have "x / q = of_int j * (2 powi s / 2 powi (e - 52))"
    by (simp add: x_def q_def)
  also have "(2::rat) powi s / 2 powi (e - 52) = 2 powi (s + 52 - e)"
    by (simp add: power_int_diff [symmetric] algebra_simps)
  also have "\<dots> = of_int (2 ^ nat (s + 52 - e))"
    using k by (simp add: power_int_def)
  finally have xq: "x / q = of_int (j * 2 ^ nat (s + 52 - e))"
    by simp
  have "of_int (round_half_even (x / q)) * q = x"
  proof -
    have "of_int (round_half_even (x / q)) * q = (x / q) * q"
      by (simp only: xq round_half_even_of_int)
    also have "\<dots> = x" by (simp add: q_def)
    finally show ?thesis .
  qed
  moreover have "0 < x \<longleftrightarrow> 0 < j"
  proof -
    have "\<not> (2::rat) powi s < 0"
      using zero_le_power_int [of "2::rat" s] by (simp only: not_less)
    then show ?thesis
      by (simp add: x_def zero_less_mult_iff)
  qed
  ultimately show ?thesis
    using f64_round_form(1) [OF x0] by (simp add: e_def q_def x_def [symmetric])
qed

lemma is_float64_int_pow:
  assumes "\<bar>j\<bar> \<le> 2 ^ 53" and "- 1074 \<le> s" and "\<bar>of_int j * 2 powi s :: rat\<bar> < 2 powi 1024"
  shows "is_float64 (of_int j * 2 powi s)"
proof (cases "j = 0")
  case True
  then show ?thesis by (simp add: is_float64_def f64_round_def)
next
  case False
  show ?thesis
  proof (cases "\<bar>j\<bar> < 2 ^ 53")
    case True
    from f64_round_exact [OF False True assms(2)] assms(3) show ?thesis
      by (simp add: is_float64_def)
  next
    case f: False
    with assms(1) have "j = 2 ^ 53 \<or> j = - (2 ^ 53)" by linarith
    then have j: "j = 2 * (j div 2)" and h: "\<bar>j div 2\<bar> < 2 ^ 53" "j div 2 \<noteq> 0"
      by auto
    have eq: "(of_int j * 2 powi s :: rat) = of_int (j div 2) * 2 powi (s + 1)"
    proof -
      have "(of_int j :: rat) = of_int (j div 2) * 2"
        using j by (metis mult.commute of_int_mult of_int_numeral)
      then show ?thesis by (simp add: power_int_add)
    qed
    from assms(2) have "- 1074 \<le> s + 1" by simp
    from f64_round_exact [OF h(2) h(1) this] assms(3) show ?thesis
      by (simp add: is_float64_def eq)
  qed
qed

lemma is_float64_round:
  assumes "f64_round x = Fin y"
  shows "is_float64 y"
proof (cases "x = 0")
  case True
  with assms show ?thesis by (auto simp: is_float64_def f64_round_def)
next
  case False
  define e where "e = max (floor_log2 \<bar>x\<bar>) (- 1022)"
  define j where "j = round_half_even (x / 2 powi (e - 52))"
  from f64_round_form(1-3) [OF False, folded e_def, folded j_def] assms
  have y: "y = of_int j * 2 powi (e - 52)" and fin: "\<bar>of_int j * 2 powi (e - 52) :: rat\<bar> < 2 powi 1024"
    and j: "\<bar>j\<bar> \<le> 2 ^ 53"
    by (auto split: if_splits)
  have "- 1074 \<le> e - 52" by (simp add: e_def)
  from is_float64_int_pow [OF j this fin] show ?thesis by (simp add: y)
qed

lemma is_float64_finite: "is_float64 p \<Longrightarrow> \<bar>p\<bar> < 2 powi 1024"
  by (cases "p = 0") (auto simp: is_float64_def f64_round_def Let_def split: if_splits)

lemma f64_round_exact':
  assumes "j \<noteq> 0" and "\<bar>j\<bar> \<le> 2 ^ 53" and "- 1074 \<le> s"
  shows "f64_round (of_int j * 2 powi s) =
           (if 2 powi 1024 \<le> \<bar>of_int j * 2 powi s :: rat\<bar> then (if 0 < j then PInf else NInf)
            else Fin (of_int j * 2 powi s))"
proof (cases "\<bar>j\<bar> < 2 ^ 53")
  case True
  from f64_round_exact [OF assms(1) True assms(3)] show ?thesis .
next
  case False
  with assms(2) have "j = 2 ^ 53 \<or> j = - (2 ^ 53)" by linarith
  then have j: "j = 2 * (j div 2)" and h: "\<bar>j div 2\<bar> < 2 ^ 53" "j div 2 \<noteq> 0"
    and sg: "0 < j div 2 \<longleftrightarrow> 0 < j"
    by auto
  have eq: "(of_int j * 2 powi s :: rat) = of_int (j div 2) * 2 powi (s + 1)"
  proof -
    have "(of_int j :: rat) = of_int (j div 2) * 2"
      using j by (metis mult.commute of_int_mult of_int_numeral)
    then show ?thesis by (simp add: power_int_add)
  qed
  from assms(3) have "- 1074 \<le> s + 1" by simp
  from f64_round_exact [OF h(2) h(1) this] show ?thesis
    by (simp only: eq sg)
qed

lemma f64_round_le:
  assumes "0 \<le> x" and "x \<le> p" and "is_float64 p"
  shows "\<exists>j. f64_round x = Fin j \<and> 0 \<le> j \<and> j \<le> p"
proof (cases "x = 0")
  case True
  with assms show ?thesis by (simp add: f64_round_def)
next
  case False
  with assms have x: "0 < x" and p: "0 < p" by simp_all
  define ex where "ex = max (floor_log2 \<bar>x\<bar>) (- 1022)"
  define jx where "jx = round_half_even (x / 2 powi (ex - 52))"
  define ep where "ep = max (floor_log2 \<bar>p\<bar>) (- 1022)"
  define jp where "jp = round_half_even (p / 2 powi (ep - 52))"
  note fx = f64_round_form [OF False, folded ex_def, folded jx_def]
  from p have p0: "p \<noteq> 0" by simp
  note fp = f64_round_form [OF p0, folded ep_def, folded jp_def]
  from fp(1) assms(3) have pv: "p = of_int jp * 2 powi (ep - 52)"
    by (auto simp: is_float64_def split: if_splits)
  have le: "ex \<le> ep"
    using floor_log2_mono [of "\<bar>x\<bar>" "\<bar>p\<bar>"] x assms(2) by (simp add: ex_def ep_def)
  have v: "of_int jx * 2 powi (ex - 52) \<le> p"
  proof (cases "ex = ep")
    case True
    have "x / 2 powi (ex - 52) \<le> p / 2 powi (ex - 52)"
      using assms(2) by (simp add: divide_right_mono)
    then have "jx \<le> jp"
      unfolding jx_def jp_def True by (rule round_half_even_mono)
    then have "(of_int jx :: rat) * 2 powi (ex - 52) \<le> of_int jp * 2 powi (ex - 52)"
      by (intro mult_right_mono) simp_all
    with pv True show ?thesis by simp
  next
    case False
    with le have lt: "ex < ep" by simp
    then have ep: "ep = floor_log2 \<bar>p\<bar>" unfolding ep_def ex_def by linarith
    have "(of_int jx :: rat) \<le> of_int (2 ^ 53)"
      using fx(3) by (rule of_int_le_iff [THEN iffD2])
    then have "(of_int jx :: rat) * 2 powi (ex - 52) \<le> 2 ^ 53 * 2 powi (ex - 52)"
      by (intro mult_right_mono) simp_all
    also have "\<dots> = 2 powi (ex + 1)"
      by (simp add: power_int_diff power_int_add)
    also have "\<dots> \<le> 2 powi ep"
      using lt by (intro power_int_increasing) simp_all
    also have "\<dots> \<le> p"
      using floor_log2_bounds [of "\<bar>p\<bar>"] p ep by simp
    finally show ?thesis .
  qed
  have nn: "(0::rat) \<le> of_int jx * 2 powi (ex - 52)"
    using fx(4) [OF x] by simp
  from is_float64_finite [OF assms(3)] p v nn
  have "\<not> 2 powi 1024 \<le> \<bar>of_int jx * 2 powi (ex - 52) :: rat\<bar>" by simp
  with fx(1) have "f64_round x = Fin (of_int jx * 2 powi (ex - 52))" by simp
  with v nn show ?thesis by blast
qed

lemma f64_round_ge:
  assumes "0 < p" and "p \<le> x" and "is_float64 p" and "f64_round x = Fin j"
  shows "p \<le> j"
proof -
  from assms have x: "0 < x" and x0: "x \<noteq> 0" and p0: "p \<noteq> 0" by simp_all
  define ex where "ex = max (floor_log2 \<bar>x\<bar>) (- 1022)"
  define jx where "jx = round_half_even (x / 2 powi (ex - 52))"
  define ep where "ep = max (floor_log2 \<bar>p\<bar>) (- 1022)"
  define jp where "jp = round_half_even (p / 2 powi (ep - 52))"
  note fx = f64_round_form [OF x0, folded ex_def, folded jx_def]
  note fp = f64_round_form [OF p0, folded ep_def, folded jp_def]
  from fp(1) assms(3) have pv: "p = of_int jp * 2 powi (ep - 52)"
    by (auto simp: is_float64_def split: if_splits)
  from fx(1) assms(4) have jv: "j = of_int jx * 2 powi (ex - 52)"
    by (auto split: if_splits)
  have le: "ep \<le> ex"
    using floor_log2_mono [of "\<bar>p\<bar>" "\<bar>x\<bar>"] assms(1,2) by (simp add: ex_def ep_def)
  show ?thesis
  proof (cases "ex = ep")
    case True
    have "p / 2 powi (ex - 52) \<le> x / 2 powi (ex - 52)"
      using assms(2) by (simp add: divide_right_mono)
    then have "jp \<le> jx"
      unfolding jx_def jp_def True by (rule round_half_even_mono)
    then have "(of_int jp :: rat) * 2 powi (ex - 52) \<le> of_int jx * 2 powi (ex - 52)"
      by (intro mult_right_mono) simp_all
    with pv jv True show ?thesis by simp
  next
    case False
    with le have lt: "ep < ex" by simp
    then have ex: "- 1022 \<le> floor_log2 \<bar>x\<bar>" unfolding ep_def ex_def by linarith
    from fx(6) [OF ex] fx(4) [OF x] have "2 ^ 52 \<le> jx" by simp
    then have "(of_int (2 ^ 52) :: rat) \<le> of_int jx"
      by (rule of_int_le_iff [THEN iffD2])
    then have step: "2 ^ 52 * 2 powi (ex - 52) \<le> (of_int jx :: rat) * 2 powi (ex - 52)"
      by (intro mult_right_mono) simp_all
    have "p < 2 powi (floor_log2 \<bar>p\<bar> + 1)"
      using floor_log2_bounds [of "\<bar>p\<bar>"] assms(1) by simp
    also have "\<dots> \<le> 2 powi (ep + 1)"
      by (intro power_int_increasing) (simp_all add: ep_def)
    also have "\<dots> \<le> 2 powi ex"
      using lt by (intro power_int_increasing) simp_all
    also have "\<dots> = 2 ^ 52 * 2 powi (ex - 52)"
      by (simp add: power_int_diff)
    also note step
    finally show ?thesis by (simp only: jv)
  qed
qed

lemma floor_log2_pow [simp]: "floor_log2 (2 powi e) = e"
  by (rule floor_log2_unique) (simp_all add: power_int_strict_increasing)

lemma floor_log2_1 [simp]: "floor_log2 1 = 0"
  using floor_log2_pow [of 0] by simp

lemma is_float64_below_1:
  assumes "is_float64 r" and "0 \<le> r" and "r < 1"
  shows "r \<le> 1 - 1 / 2 ^ 53"
proof (rule ccontr)
  assume "\<not> r \<le> 1 - 1 / 2 ^ 53"
  then have lo: "1 - 1 / 2 ^ 53 < r" by simp
  then have r0: "r \<noteq> 0" and rp: "0 < \<bar>r\<bar>" and ar: "\<bar>r\<bar> = r" by simp_all
  have "floor_log2 \<bar>r\<bar> = - 1"
    using lo assms(3) by (intro floor_log2_unique [OF rp]) (simp_all add: ar)
  then have e: "max (floor_log2 \<bar>r\<bar>) (- 1022) = - 1" by simp
  define j where "j = round_half_even (r / 2 powi (- 1 - 52))"
  from f64_round_form(1) [OF r0, unfolded e, folded j_def] assms(1)
  have "r = of_int j * 2 powi (- 53)"
    by (auto simp: is_float64_def split: if_splits)
  then have rj: "r * 2 ^ 53 = of_int j"
    by (simp add: power_int_minus field_simps)
  from lo have "(2 ^ 53 - 1 :: rat) < r * 2 ^ 53" by (simp add: field_simps)
  with rj have "(of_int (2 ^ 53 - 1) :: rat) < of_int j" by simp
  then have "2 ^ 53 - 1 < j" by (simp only: of_int_less_iff)
  moreover from assms(3) have "r * 2 ^ 53 < 2 ^ 53" by simp
  with rj have "(of_int j :: rat) < of_int (2 ^ 53)" by simp
  then have "j < 2 ^ 53" by (simp only: of_int_less_iff)
  ultimately show False by simp
qed

lemma f64_round_below:
  assumes "is_float64 d" and "1 \<le> d" and "0 \<le> x" and "x \<le> d * (1 - 1 / 2 ^ 53)"
  shows "\<exists>j. f64_round x = Fin j \<and> 0 \<le> j \<and> j < d"
proof -
  from assms(2) have d0: "d \<noteq> 0" and dp: "0 < \<bar>d\<bar>" and ad: "\<bar>d\<bar> = d" by simp_all
  define L where "L = floor_log2 \<bar>d\<bar>"
  have "floor_log2 1 \<le> floor_log2 \<bar>d\<bar>"
    using assms(2) by (intro floor_log2_mono) (simp_all add: ad)
  then have L0: "0 \<le> L" by (simp add: L_def)
  then have e: "max (floor_log2 \<bar>d\<bar>) (- 1022) = L" by (simp add: L_def)
  define q :: rat where "q = 2 powi (L - 52)"
  define m where "m = round_half_even (d / q)"
  have q: "0 < q" by (simp add: q_def)
  note fd = f64_round_form [OF d0, unfolded e, folded q_def, folded m_def]
  from fd(1) assms(1) have dv: "d = of_int m * q"
    by (auto simp: is_float64_def split: if_splits)
  from fd(6) fd(4) assms(2) L0 have m52: "2 ^ 52 \<le> m" by (simp add: L_def)
  have dhi: "d < 2 powi (L + 1)"
    using floor_log2_bounds [OF dp] by (simp add: L_def ad)
  have dlo: "2 powi L \<le> d"
    using floor_log2_bounds [OF dp] by (simp add: L_def ad)
  have fin: "d < 2 powi 1024"
    using is_float64_finite [OF assms(1)] by (simp add: ad)
  have s: "- 1074 \<le> L - 52" using L0 by simp
  show ?thesis
  proof (cases "m = 2 ^ 52")
    case True
    define p :: rat where "p = of_int (2 ^ 53 - 1) * 2 powi (L - 53)"
    have d2: "d = 2 ^ 53 * 2 powi (L - 53)"
      by (simp add: dv True q_def power_int_diff)
    have pd: "p = d * (1 - 1 / 2 ^ 53)"
      by (simp add: p_def d2 field_simps)
    have plt: "p < d"
      using assms(2) by (simp add: pd field_simps)
    have p0: "0 \<le> p" by (simp add: p_def)
    have "is_float64 p"
      unfolding p_def
    proof (rule is_float64_int_pow)
      show "\<bar>2 ^ 53 - 1 :: int\<bar> \<le> 2 ^ 53" by simp
      show "- 1074 \<le> L - 53" using L0 by simp
      show "\<bar>of_int (2 ^ 53 - 1) * 2 powi (L - 53) :: rat\<bar> < 2 powi 1024"
        using plt fin p0 by (simp add: p_def)
    qed
    from f64_round_le [OF assms(3) _ this] assms(4) pd plt show ?thesis
      by fastforce
  next
    case False
    with m52 have m: "2 ^ 52 < m" by simp
    define p :: rat where "p = of_int (m - 1) * q"
    have plt: "p < d"
      using q by (simp add: p_def dv algebra_simps)
    have "(of_int (2 ^ 52) :: rat) \<le> of_int (m - 1)"
      using m by (intro of_int_le_iff [THEN iffD2]) simp
    then have "2 ^ 52 * q \<le> p"
      unfolding p_def using q by (intro mult_right_mono) simp_all
    moreover have "2 ^ 52 * q = 2 powi L"
      by (simp add: q_def power_int_diff)
    ultimately have plo: "2 powi L \<le> p" by simp
    then have p0: "0 \<le> p"
      using zero_le_power_int [of "2::rat" L] by linarith
    have mhi: "m \<le> 2 ^ 53" by (rule fd(3))
    have fp: "is_float64 p"
      unfolding p_def q_def
    proof (rule is_float64_int_pow)
      show "\<bar>m - 1\<bar> \<le> 2 ^ 53" using m mhi by simp
      show "- 1074 \<le> L - 52" by (rule s)
      show "\<bar>of_int (m - 1) * 2 powi (L - 52) :: rat\<bar> < 2 powi 1024"
        using plt fin p0 by (simp add: p_def q_def)
    qed
    show ?thesis
    proof (cases "x \<le> p")
      case True
      from f64_round_le [OF assms(3) True fp] plt show ?thesis by fastforce
    next
      case False
      then have px: "p < x" by simp
      with p0 have x0: "x \<noteq> 0" and xp: "0 < \<bar>x\<bar>" and ax: "\<bar>x\<bar> = x" by simp_all
      have xd: "x < d"
      proof -
        have "d * (1 - 1 / 2 ^ 53) < d" using assms(2) by (simp add: field_simps)
        with assms(4) show ?thesis by simp
      qed
      have "floor_log2 \<bar>x\<bar> = L"
        using plo px xd dhi by (intro floor_log2_unique [OF xp]) (simp_all add: ax)
      then have ex: "max (floor_log2 \<bar>x\<bar>) (- 1022) = L" using L0 by simp
      define jx where "jx = round_half_even (x / q)"
      note fx = f64_round_form [OF x0, unfolded ex, folded q_def, folded jx_def]
      have "x / q \<le> d * (1 - 1 / 2 ^ 53) / q"
        by (rule divide_right_mono [OF assms(4)]) (use q in simp)
      also have "\<dots> = of_int m - of_int m / 2 ^ 53"
        using q by (simp add: dv field_simps)
      also have "\<dots> < of_int m - 1 / 2"
      proof -
        have "(of_int (2 ^ 52) :: rat) < of_int m"
          using m by (rule of_int_less_iff [THEN iffD2])
        then show ?thesis by (simp add: field_simps)
      qed
      finally have "jx \<le> m - 1"
        unfolding jx_def by (rule round_half_even_below)
      then have "(of_int jx :: rat) \<le> of_int (m - 1)"
        by (rule of_int_le_iff [THEN iffD2])
      then have v: "of_int jx * q \<le> p"
        unfolding p_def using q by (intro mult_right_mono) simp_all
      have nn: "0 \<le> of_int jx * q"
        using fx(4) px p0 q by simp
      from v plt fin nn have "\<not> 2 powi 1024 \<le> \<bar>of_int jx * q\<bar>" by simp
      with fx(1) have "f64_round x = Fin (of_int jx * q)" by simp
      with v plt nn show ?thesis by fastforce
    qed
  qed
qed

lemma wrap64_id: "in_int64 x \<Longrightarrow> wrap64 x = x"
  by (simp add: wrap64_def in_int64_def)

lemma is_float64_pow2:
  assumes "- 1074 \<le> s" and "s < 1024"
  shows "is_float64 (2 powi s)"
proof -
  have "(2::rat) powi s < 2 powi 1024"
    using assms(2) by (intro power_int_strict_increasing) simp_all
  moreover have "\<bar>of_int 1 * 2 powi s :: rat\<bar> = 2 powi s"
    by (simp add: abs_mult)
  ultimately have "\<bar>of_int 1 * 2 powi s :: rat\<bar> < 2 powi 1024"
    by (simp only:)
  from is_float64_int_pow [OF _ assms(1) this] show ?thesis
    by (simp only: of_int_1 mult_1) simp
qed

lemma is_float64_0 [simp]: "is_float64 0"
  by (simp add: is_float64_def f64_round_def)

lemma f64_of_int64_small:
  assumes "\<bar>x\<bar> \<le> 2 ^ 53"
  shows "f64_of_int64 x = Fin (of_int x)"
proof -
  have "(of_int \<bar>x\<bar> :: rat) \<le> of_int (2 ^ 53)"
    using assms by (rule of_int_le_iff [THEN iffD2])
  also have "\<dots> < 2 powi 1024" by simp
  finally have "\<bar>of_int x * 2 powi 0 :: rat\<bar> < 2 powi 1024" by simp
  from is_float64_int_pow [OF assms _ this] show ?thesis
    by (simp add: is_float64_def f64_of_int64_def)
qed

lemma f64_of_int64_form:
  assumes "in_int64 x"
  shows "\<exists>j s. \<bar>j\<bar> \<le> 2 ^ 53 \<and> f64_of_int64 x = Fin (of_int (j * 2 ^ s)) \<and> \<bar>j * 2 ^ s\<bar> \<le> 2 ^ 63"
proof (cases "\<bar>x\<bar> \<le> 2 ^ 53")
  case True
  from f64_of_int64_small [OF True] True show ?thesis
    by (intro exI [of _ x] exI [of _ "0::nat"]) simp
next
  case big: False
  show ?thesis
  proof (cases "x = - (2 ^ 63)")
    case True
    have "f64_round (of_int (- 1) * 2 powi 63) = Fin (of_int (- 1) * 2 powi 63)"
      by (subst f64_round_exact') simp_all
    then have "f64_of_int64 x = Fin (of_int (- 1 * 2 ^ 63))"
      by (simp add: f64_of_int64_def True)
    then show ?thesis
      by (intro exI [of _ "- 1"] exI [of _ "63::nat"]) simp
  next
    case False
    with assms have ax: "\<bar>x\<bar> < 2 ^ 63" unfolding in_int64_def by linarith
    define r :: rat where "r = of_int x"
    have r0: "r \<noteq> 0" using big by (auto simp: r_def)
    have ar: "\<bar>r\<bar> = of_int \<bar>x\<bar>" by (simp add: r_def)
    define L where "L = floor_log2 \<bar>r\<bar>"
    have "(of_int (2 ^ 53) :: rat) \<le> of_int \<bar>x\<bar>"
      using big by (intro of_int_le_iff [THEN iffD2]) simp
    then have "floor_log2 (2 powi 53) \<le> floor_log2 \<bar>r\<bar>"
      by (intro floor_log2_mono) (simp_all add: ar)
    then have L53: "53 \<le> L" by (simp only: floor_log2_pow L_def)
    have "(of_int \<bar>x\<bar> :: rat) < of_int (2 ^ 63)"
      using ax by (rule of_int_less_iff [THEN iffD2])
    then have "\<bar>r\<bar> < 2 powi 63" by (simp add: ar)
    moreover have "2 powi L \<le> \<bar>r\<bar>"
      using floor_log2_bounds [of "\<bar>r\<bar>"] r0 by (simp add: L_def)
    ultimately have "(2::rat) powi L < 2 powi 63" by simp
    then have L62: "L \<le> 62"
      using power_int_increasing [of 63 L "2::rat"] by (cases "63 \<le> L") simp_all
    from L53 have e: "max (floor_log2 \<bar>r\<bar>) (- 1022) = L" by (simp add: L_def)
    define j where "j = round_half_even (r / 2 powi (L - 52))"
    note fr = f64_round_form [OF r0, unfolded e, folded j_def]
    have pw: "(2::rat) powi (L - 52) = of_int (2 ^ nat (L - 52))"
      using L53 by (simp add: power_int_def)
    have jb: "\<bar>j\<bar> \<le> 2 ^ 53" using fr(2,3) by simp
    have "\<bar>j * 2 ^ nat (L - 52)\<bar> \<le> 2 ^ 53 * 2 ^ nat (L - 52)"
      using jb by (simp add: abs_mult)
    also have "\<dots> = 2 ^ (53 + nat (L - 52))" by (simp add: power_add)
    also have "\<dots> \<le> (2::int) ^ 63"
      using L62 L53 by (intro power_increasing) simp_all
    finally have b: "\<bar>j * 2 ^ nat (L - 52)\<bar> \<le> 2 ^ 63" .
    then have "(of_int \<bar>j * 2 ^ nat (L - 52)\<bar> :: rat) \<le> of_int (2 ^ 63)"
      by (rule of_int_le_iff [THEN iffD2])
    also have "\<dots> < 2 powi 1024" by simp
    finally have "\<not> 2 powi 1024 \<le> \<bar>of_int j * 2 powi (L - 52) :: rat\<bar>"
      by (simp add: pw abs_mult)
    with fr(1) have "f64_round r = Fin (of_int j * 2 powi (L - 52))" by simp
    then have "f64_of_int64 x = Fin (of_int (j * 2 ^ nat (L - 52)))"
      by (simp add: f64_of_int64_def r_def pw)
    with jb b show ?thesis by blast
  qed
qed

lemma f64_of_int64_float64_of:
  assumes "in_int64 x"
  shows "f64_of_int64 x = Fin (of_int (float64_of x))"
  using f64_of_int64_form [OF assms] by (auto simp: float64_of_def)

lemma jitter_bound:
  assumes "1 \<le> D" and "D < 2 ^ 63" and "is_float64 r" and "0 \<le> r" and "r < 1"
  shows "\<exists>j. f64_mul (Fin r) (f64_of_int64 D) = Fin j \<and> 0 \<le> j \<and> j < of_int D"
proof -
  have f63: "is_float64 (2 powi 63)" by (rule is_float64_pow2) simp_all
  have "(of_int D :: rat) \<le> of_int (2 ^ 63)"
    using assms(2) by (intro of_int_le_iff [THEN iffD2]) simp
  then have "(of_int D :: rat) \<le> 2 powi 63" by simp
  from f64_round_le [OF _ this f63] assms(1)
  obtain dv where dv: "f64_round (of_int D) = Fin dv" by auto
  have f1: "is_float64 (2 powi 0)" by (rule is_float64_pow2) simp_all
  have "(2::rat) powi 0 \<le> of_int D" using assms(1) by simp
  from f64_round_ge [OF _ this f1 dv] have d1: "1 \<le> dv" by simp
  have fd: "is_float64 dv" using dv by (rule is_float64_round)
  have x0: "0 \<le> r * dv" using assms(4) d1 by simp
  have "r * dv \<le> (1 - 1 / 2 ^ 53) * dv"
    using is_float64_below_1 [OF assms(3-5)] d1 by (intro mult_right_mono) simp_all
  then have "r * dv \<le> dv * (1 - 1 / 2 ^ 53)" by (simp only: mult.commute)
  from f64_round_below [OF fd d1 x0 this]
  obtain j where j: "f64_round (r * dv) = Fin j" "0 \<le> j" "j < dv" by blast
  have "j < of_int D"
  proof (rule ccontr)
    assume "\<not> j < of_int D"
    then have Dj: "of_int D \<le> j" by simp
    have fj: "is_float64 j" using j(1) by (rule is_float64_round)
    from f64_round_le [OF _ Dj fj] assms(1) dv have "dv \<le> j" by auto
    with j(3) show False by simp
  qed
  with j show ?thesis by (simp add: f64_of_int64_def dv)
qed

lemma linear_jitter_degenerate:
  assumes "0 \<le> n" and "n + 1 < 2 ^ 63" and "max_d \<le> min_d" and "in_int64 (min_d * (n + 1))"
  shows "LinearJitterBackoff oor r min_d max_d n resp = min_d * (n + 1)"
proof -
  have "in_int64 (n + 1)" using assms(1,2) by (simp add: in_int64_def)
  then show ?thesis
    using assms(3,4) by (simp add: LinearJitterBackoff_def wrap64_id)
qed

lemma linear_jitter_offset:
  assumes "0 \<le> n" and "n + 1 < 2 ^ 63" and "min_d < max_d" and "max_d - min_d < 2 ^ 63"
    and "in_int64 (min_d * (n + 1))" and "in_int64 (max_d * (n + 1))"
    and "is_float64 r" and "0 \<le> r" and "r < 1"
  shows "\<exists>offset. 0 \<le> offset \<and> offset < max_d - min_d
           \<and> LinearJitterBackoff oor r min_d max_d n resp = (min_d + offset) * (n + 1)"
proof -
  have n1: "in_int64 (n + 1)" using assms(1,2) by (simp add: in_int64_def)
  have D: "in_int64 (max_d - min_d)" using assms(3,4) by (simp add: in_int64_def)
  from assms(3) have D1: "1 \<le> max_d - min_d" by simp
  from jitter_bound [OF D1 assms(4) assms(7-9)]
  obtain j where j: "f64_mul (Fin r) (f64_of_int64 (max_d - min_d)) = Fin j" "0 \<le> j"
    "j < of_int (max_d - min_d)"
    by blast
  define offset where "offset = \<lfloor>j\<rfloor>"
  have o0: "0 \<le> offset" using j(2) by (simp add: offset_def)
  have "of_int offset \<le> j" by (simp add: offset_def)
  with j(3) have "(of_int offset :: rat) < of_int (max_d - min_d)" by simp
  then have o1: "offset < max_d - min_d" by (simp only: of_int_less_iff)
  have oi: "in_int64 offset" using o0 o1 assms(4) by (simp add: in_int64_def)
  have conv: "f64_to_int64 oor (Fin j) = offset"
    using j(2) oi by (simp add: f64_to_int64_def offset_def)
  have lo: "min_d * (n + 1) \<le> (min_d + offset) * (n + 1)"
    using o0 assms(1) by (intro mult_right_mono) simp_all
  have hi: "(min_d + offset) * (n + 1) \<le> max_d * (n + 1)"
    using o1 assms(1) by (intro mult_right_mono) simp_all
  from lo hi assms(5,6) have r: "in_int64 ((min_d + offset) * (n + 1))"
    by (simp add: in_int64_def)
  have m: "in_int64 (min_d + offset)"
  proof -
    have a: "\<bar>min_d + offset\<bar> * 1 \<le> \<bar>min_d + offset\<bar> * (n + 1)"
      using assms(1) by (intro mult_left_mono) simp_all
    have "\<bar>(min_d + offset) * (n + 1)\<bar> \<le> 2 ^ 63"
      using r by (simp add: in_int64_def abs_le_iff) 
    then have b: "\<bar>min_d + offset\<bar> \<le> 2 ^ 63"
      using a assms(1) by (simp add: abs_mult)
    show ?thesis
    proof (cases "min_d + offset = 2 ^ 63")
      case True
      with r assms(1) have "2 ^ 63 * (n + 1) < (2 ^ 63 :: int)" by (simp add: in_int64_def)
      with assms(1) show ?thesis by simp
    next
      case False
      with b show ?thesis unfolding in_int64_def by linarith
    qed
  qed
  have s1: "wrap64 (offset + min_d) = min_d + offset"
    using wrap64_id [OF m] by (simp add: add.commute)
  have "LinearJitterBackoff oor r min_d max_d n resp = (min_d + offset) * (n + 1)"
    using assms(3) wrap64_id [OF r]
    by (simp add: LinearJitterBackoff_def wrap64_id n1 D j(1) conv Let_def s1)
  with o0 o1 show ?thesis by blast
qed

lemma f64_round_int_scaled:
  assumes "\<bar>j\<bar> \<le> 2 ^ 53" and "j \<noteq> 0"
  shows "f64_round (of_int (j * 2 ^ t)) =
           (if 2 powi 1024 \<le> \<bar>of_int (j * 2 ^ t) :: rat\<bar> then (if 0 < j then PInf else NInf)
            else Fin (of_int (j * 2 ^ t)))"
proof -
  have "(of_int (j * 2 ^ t) :: rat) = of_int j * 2 powi (int t)" by simp
  then show ?thesis
    using f64_round_exact' [OF assms(2,1), of "int t"] by (simp only:)
qed

lemma in_int64_below_huge:
  assumes "\<bar>v\<bar> \<le> 2 ^ 63"
  shows "\<not> 2 powi 1024 \<le> \<bar>of_int v :: rat\<bar>"
proof -
  have "(of_int \<bar>v\<bar> :: rat) \<le> of_int (2 ^ 63)"
    using assms by (rule of_int_le_iff [THEN iffD2])
  also have "\<dots> < 2 powi 1024" by simp
  finally show ?thesis by simp
qed

lemma f64_to_int64_of_int: "in_int64 v \<Longrightarrow> f64_to_int64 oor (Fin (of_int v)) = v"
  by (simp add: f64_to_int64_def)

lemma f64_to_int64_out: "\<not> in_int64 v \<Longrightarrow> f64_to_int64 oor (Fin (of_int v)) = oor"
  by (simp add: f64_to_int64_def)

lemma math_Pow2_small:
  assumes "0 \<le> n" and "n < 1024"
  shows "math_Pow2 (f64_of_int64 n) = Fin (2 ^ nat n)"
proof -
  from assms have "f64_of_int64 n = Fin (of_int n)"
    by (intro f64_of_int64_small) simp
  moreover have "\<not> (1024::rat) \<le> of_int n" and "\<not> (of_int n :: rat) < - 1074"
    using assms by simp_all
  ultimately show ?thesis
    using assms(1) by (simp add: math_Pow2_def power_int_def)
qed

lemma default_backoff_mult:
  assumes "0 \<le> n" and "n < 1024" and "in_int64 min_d"
  obtains j t where "\<bar>j\<bar> \<le> 2 ^ 53" and "float64_of min_d * 2 ^ nat n = j * 2 ^ t"
    and "f64_mul (math_Pow2 (f64_of_int64 n)) (f64_of_int64 min_d) =
           f64_round (of_int (j * 2 ^ t))"
proof -
  from f64_of_int64_form [OF assms(3)] obtain j s where j: "\<bar>j\<bar> \<le> 2 ^ 53"
    and f: "f64_of_int64 min_d = Fin (of_int (j * 2 ^ s))"
    by blast
  from f have k: "float64_of min_d = j * 2 ^ s"
    by (simp only: float64_of_def f64.case floor_of_int)
  have "f64_mul (math_Pow2 (f64_of_int64 n)) (f64_of_int64 min_d) =
      f64_round (2 ^ nat n * of_int (j * 2 ^ s))"
    by (simp only: math_Pow2_small [OF assms(1,2)] f f64_mul.simps)
  also have "(2 ^ nat n * of_int (j * 2 ^ s) :: rat) = of_int (j * 2 ^ (s + nat n))"
    by (simp add: power_add)
  finally have "f64_mul (math_Pow2 (f64_of_int64 n)) (f64_of_int64 min_d) =
      f64_round (of_int (j * 2 ^ (s + nat n)))" .
  moreover have "float64_of min_d * 2 ^ nat n = j * 2 ^ (s + nat n)"
    by (simp add: k power_add)
  ultimately show ?thesis using j that by blast
qed

lemma default_backoff_in_range:
  assumes "0 \<le> n" and "n < 1024" and "in_int64 min_d"
    and "in_int64 (float64_of min_d * 2 ^ nat n)"
  shows "DefaultBackoff oor min_d max_d n resp = min (float64_of min_d * 2 ^ nat n) max_d"
proof -
  from default_backoff_mult [OF assms(1-3)] obtain j t where j: "\<bar>j\<bar> \<le> 2 ^ 53"
    and v: "float64_of min_d * 2 ^ nat n = j * 2 ^ t"
    and m: "f64_mul (math_Pow2 (f64_of_int64 n)) (f64_of_int64 min_d) =
           f64_round (of_int (j * 2 ^ t))"
    by blast
  define v' where "v' = j * 2 ^ t"
  from assms(4) v have iv: "in_int64 v'" by (simp add: v'_def)
  then have "\<bar>v'\<bar> \<le> 2 ^ 63" unfolding in_int64_def by linarith
  note fin = in_int64_below_huge [OF this]
  have rv: "f64_round (of_int v') = Fin (of_int v')"
  proof (cases "j = 0")
    case True
    then show ?thesis by (simp add: v'_def f64_round_def)
  next
    case False
    from f64_round_int_scaled [OF j False, of t] fin show ?thesis
      by (simp only: v'_def [symmetric] if_False)
  qed
  have m': "f64_mul (math_Pow2 (f64_of_int64 n)) (f64_of_int64 min_d) = Fin (of_int v')"
    using m rv by (simp only: v'_def)
  have fv: "f64_of_int64 v' = Fin (of_int v')"
    using rv by (simp only: f64_of_int64_def)
  have "DefaultBackoff oor min_d max_d n resp = (if max_d < v' then max_d else v')"
    by (simp add: DefaultBackoff_def Let_def m' f64_to_int64_of_int [OF iv] fv f64_ne_def)
  then show ?thesis by (simp add: v v'_def min_def)
qed

lemma default_backoff_out_of_range:
  assumes "0 \<le> n" and "n < 1024" and "in_int64 min_d" and "in_int64 oor"
    and "\<not> in_int64 (float64_of min_d * 2 ^ nat n)"
    and "float64_of oor \<noteq> 2 ^ 63 \<or> max_d \<le> oor"
  shows "DefaultBackoff oor min_d max_d n resp = max_d"
proof -
  from default_backoff_mult [OF assms(1-3)] obtain j t where j: "\<bar>j\<bar> \<le> 2 ^ 53"
    and v: "float64_of min_d * 2 ^ nat n = j * 2 ^ t"
    and m: "f64_mul (math_Pow2 (f64_of_int64 n)) (f64_of_int64 min_d) =
           f64_round (of_int (j * 2 ^ t))"
    by blast
  define v' where "v' = j * 2 ^ t"
  from assms(5) v have iv: "\<not> in_int64 v'" by (simp add: v'_def)
  then have j0: "j \<noteq> 0" by (auto simp: v'_def in_int64_def)
  note rv = f64_round_int_scaled [OF j j0, of t, folded v'_def]
  have m': "f64_mul (math_Pow2 (f64_of_int64 n)) (f64_of_int64 min_d) = f64_round (of_int v')"
    using m by (simp only: v'_def)
  from f64_of_int64_form [OF assms(4)] obtain ko where ko: "f64_of_int64 oor = Fin (of_int ko)"
    and kb: "\<bar>ko\<bar> \<le> 2 ^ 63"
    by blast
  then have fo: "float64_of oor = ko"
    by (simp only: float64_of_def f64.case floor_of_int)
  show ?thesis
  proof (cases "2 powi 1024 \<le> \<bar>of_int v' :: rat\<bar>")
    case True
    with rv have "f64_round (of_int v') = PInf \<or> f64_round (of_int v') = NInf" by simp
    then show ?thesis
      by (auto simp: DefaultBackoff_def Let_def m' f64_to_int64_def ko f64_ne_def)
  next
    case False
    with rv have r: "f64_round (of_int v') = Fin (of_int v')" by simp
    have ne: "ko = v' \<Longrightarrow> ko = 2 ^ 63"
      using iv kb unfolding in_int64_def by linarith
    have "DefaultBackoff oor min_d max_d n resp =
        (if ko \<noteq> v' \<or> max_d < oor then max_d else oor)"
      by (simp add: DefaultBackoff_def Let_def m' r f64_to_int64_out [OF iv] ko f64_ne_def)
    with assms(6) ne fo show ?thesis by auto
  qed
qed

lemma default_backoff_pow_overflow:
  assumes "1024 \<le> n" and "in_int64 n" and "in_int64 min_d" and "in_int64 oor"
  shows "DefaultBackoff oor min_d max_d n resp = max_d"
proof -
  from f64_of_int64_form [OF assms(2)] obtain nv where nv: "f64_of_int64 n = Fin nv"
    by blast
  have f10: "is_float64 (2 powi 10)" by (rule is_float64_pow2) simp_all
  have "(of_int 1024 :: rat) \<le> of_int n"
    using assms(1) by (rule of_int_le_iff [THEN iffD2])
  then have le: "(2::rat) powi 10 \<le> of_int n" by simp
  have rn: "f64_round (of_int n) = Fin nv" using nv by (simp only: f64_of_int64_def)
  have "2 powi 10 \<le> nv"
    by (rule f64_round_ge [OF _ le f10 rn]) simp
  then have "1024 \<le> nv" by simp
  then have p: "math_Pow2 (f64_of_int64 n) = PInf"
    by (simp add: nv math_Pow2_def)
  from f64_of_int64_form [OF assms(3)] obtain k where k: "f64_of_int64 min_d = Fin k"
    by blast
  from f64_of_int64_form [OF assms(4)] obtain ko where ko: "f64_of_int64 oor = Fin ko"
    by blast
  define mult where "mult = f64_mul PInf (Fin k)"
  have mc: "mult = NaN \<or> mult = PInf \<or> mult = NInf"
    by (simp add: mult_def)
  then have cv: "f64_to_int64 oor mult = oor"
    by (auto simp: f64_to_int64_def)
  from mc have ne: "f64_ne (Fin ko) mult"
    by (auto simp: f64_ne_def)
  show ?thesis
    unfolding DefaultBackoff_def Let_def p k mult_def [symmetric] cv ko
    using ne by simp
qed

lemma float64_of_small: "\<bar>x\<bar> \<le> 2 ^ 53 \<Longrightarrow> float64_of x = x"
  using f64_of_int64_small [of x] by (simp only: float64_of_def f64.case floor_of_int)

lemma float64_of_second [simp]: "float64_of second = second"
  by (rule float64_of_small) (simp add: second_def)

lemma in_int64_second [simp]: "in_int64 second"
  by (simp add: in_int64_def second_def)

lemma DefaultBackoff_second:
  assumes "0 \<le> n" and "n \<le> 30"
  shows "DefaultBackoff oor second (30 * second) n resp = min (second * 2 ^ nat n) (30 * second)"
proof -
  have p: "(2::int) ^ nat n \<le> 2 ^ 30"
    using assms by (intro power_increasing) simp_all
  have a: "second * 2 ^ nat n \<le> second * 2 ^ 30"
    using p by (intro mult_left_mono) (simp_all add: second_def)
  have b: "0 \<le> second * 2 ^ nat n"
    by (simp add: second_def)
  have c: "second * 2 ^ 30 < 2 ^ 63" and d: "- (2 ^ 63) \<le> (0::int)"
    by (simp_all add: second_def)
  from a b c d have "in_int64 (second * 2 ^ nat n)"
    unfolding in_int64_def by linarith
  then have "in_int64 (float64_of second * 2 ^ nat n)"
    by (simp only: float64_of_second)
  from default_backoff_in_range [OF assms(1) _ in_int64_second this] assms(2) show ?thesis
    by (simp only: float64_of_second)
qed

lemma float64_of_rounds: "float64_of 9007199254740993 = 9007199254740992"
proof -
  have "f64_round (of_int 9007199254740993) = Fin (of_int 9007199254740992)"
    by code_simp
  then show ?thesis
    by (simp only: float64_of_def f64_of_int64_def f64.case floor_of_int)
qed

lemma float64_of_min_int: "float64_of (- 9223372036854775808) = - 9223372036854775808"
proof -
  have "f64_round (of_int (- 1) * 2 powi 63) = Fin (of_int (- 1) * 2 powi 63)"
    by (subst f64_round_exact') simp_all
  then have "f64_round (of_int (- 9223372036854775808)) = Fin (of_int (- 9223372036854775808))"
    by simp
  then show ?thesis
    by (simp only: float64_of_def f64_of_int64_def f64.case floor_of_int)
qed

lemma float64_of_error:
  assumes "in_int64 x"
  shows "\<bar>float64_of x - x\<bar> \<le> 512"
proof (cases "\<bar>x\<bar> \<le> 2 ^ 53")
  case True
  then show ?thesis by (simp add: float64_of_small)
next
  case big: False
  show ?thesis
  proof (cases "x = - (2 ^ 63)")
    case True
    then show ?thesis by (simp add: float64_of_min_int)
  next
    case False
    with assms have ax: "\<bar>x\<bar> < 2 ^ 63" unfolding in_int64_def by linarith
    define r :: rat where "r = of_int x"
    have r0: "r \<noteq> 0" using big by (auto simp: r_def)
    have ar: "\<bar>r\<bar> = of_int \<bar>x\<bar>" by (simp add: r_def)
    define L where "L = floor_log2 \<bar>r\<bar>"
    have "(of_int (2 ^ 53) :: rat) \<le> of_int \<bar>x\<bar>"
      using big by (intro of_int_le_iff [THEN iffD2]) simp
    then have "floor_log2 (2 powi 53) \<le> floor_log2 \<bar>r\<bar>"
      by (intro floor_log2_mono) (simp_all add: ar)
    then have L53: "53 \<le> L" by (simp only: floor_log2_pow L_def)
    have "(of_int \<bar>x\<bar> :: rat) < of_int (2 ^ 63)"
      using ax by (rule of_int_less_iff [THEN iffD2])
    then have "\<bar>r\<bar> < 2 powi 63" by (simp add: ar)
    moreover have "2 powi L \<le> \<bar>r\<bar>"
      using floor_log2_bounds [of "\<bar>r\<bar>"] r0 by (simp add: L_def)
    ultimately have "(2::rat) powi L < 2 powi 63" by simp
    then have L62: "L \<le> 62"
      using power_int_increasing [of 63 L "2::rat"] by (cases "63 \<le> L") simp_all
    from L53 have e: "max (floor_log2 \<bar>r\<bar>) (- 1022) = L" by (simp add: L_def)
    define q :: rat where "q = 2 powi (L - 52)"
    define j where "j = round_half_even (r / q)"
    have q0: "0 < q" by (simp add: q_def)
    have "q \<le> 2 powi 10"
      unfolding q_def using L62 by (intro power_int_increasing) simp_all
    then have q10: "q \<le> 1024" by simp
    from f64_of_int64_float64_of [OF assms]
    have "f64_round r = Fin (of_int (float64_of x))"
      by (simp only: f64_of_int64_def r_def)
    with f64_round_form(1) [OF r0, unfolded e, folded q_def, folded j_def]
    have v: "of_int (float64_of x) = of_int j * q"
      by (auto split: if_splits)
    have "of_int j * q - r = (of_int j - r / q) * q"
      using q0 by (simp add: field_simps)
    then have "\<bar>of_int j * q - r\<bar> = \<bar>of_int j - r / q\<bar> * \<bar>q\<bar>"
      by (simp only: abs_mult)
    also have "\<dots> = \<bar>of_int j - r / q\<bar> * q"
      using q0 by simp
    also have "\<dots> \<le> (1 / 2) * q"
      using round_half_even_error [of "r / q"] q0 unfolding j_def
      by (intro mult_right_mono) simp_all
    also have "\<dots> \<le> 512" using q10 by simp
    finally have "\<bar>(of_int (float64_of x - x) :: rat)\<bar> \<le> of_int 512"
      by (simp add: v r_def)
    then show ?thesis
      by (simp only: of_int_abs [symmetric] of_int_le_iff)
  qed
qed

section \<open>Properties of the body factory\<close>

lemma replay_const:
  assumes "\<And>h. P h \<Longrightarrow> fst (obtain_read f h) = Inr bs \<and> P (snd (obtain_read f h))"
    and "P h"
  shows "replay n f h = replicate n (Inr bs)"
  using assms(2)
proof (induction n arbitrary: h)
  case 0
  show ?case by simp
next
  case (Suc n)
  from assms(1) [OF Suc.prems] Suc.IH [of "snd (obtain_read f h)"] show ?case
    by (cases "obtain_read f h") simp
qed

lemma replay_identical:
  assumes "payload rb h = (Inr (Some f, len), h')"
    and "\<And>g. rb \<noteq> RawReaderFunc g" and "\<And>g. rb \<noteq> RawFunc g"
    and "\<And>a. rb = RawReadSeeker a \<Longrightarrow> seek_error (h a) = None"
  shows "\<exists>bs. replay n f h' = replicate n (Inr bs)"
proof (cases rb)
  case (RawByteSlice a)
  with assms(1) have f: "f = (\<lambda>h. (Inr (BytesReader (contents (h a))), h))" and "h' = h"
    by auto
  have "replay n f h' = replicate n (Inr (contents (h' a)))"
    by (rule replay_const [where P = "\<lambda>k. k = h'"]) (simp_all add: f obtain_read_def read_stream_def)
  then show ?thesis ..
next
  case (RawBytesBuffer a)
  with assms(1) have f: "f = (\<lambda>h. (Inr (BytesReader (drop (offset (h a)) (contents (h a)))), h))"
    by auto
  have "replay n f h' = replicate n (Inr (drop (offset (h' a)) (contents (h' a))))"
    by (rule replay_const [where P = "\<lambda>k. k = h'"]) (simp_all add: f obtain_read_def read_stream_def)
  then show ?thesis ..
next
  case (RawBytesReader a)
  with assms(1) obtain buf where f: "f = (\<lambda>h. (Inr (BytesReader buf), h))"
    by (auto simp: buffered_def ReadAll_def split: option.splits)
  have "replay n f h' = replicate n (Inr buf)"
    by (rule replay_const [where P = "\<lambda>k. True"]) (simp_all add: f obtain_read_def read_stream_def)
  then show ?thesis ..
next
  case (RawReader a)
  with assms(1) obtain buf where f: "f = (\<lambda>h. (Inr (BytesReader buf), h))"
    by (auto simp: buffered_def ReadAll_def split: option.splits)
  have "replay n f h' = replicate n (Inr buf)"
    by (rule replay_const [where P = "\<lambda>k. True"]) (simp_all add: f obtain_read_def read_stream_def)
  then show ?thesis ..
next
  case (RawReadSeeker a)
  with assms(1) have f: "f = (\<lambda>h. (Inr (NopCloser a), snd (Seek0 a h)))" and h': "h' = h"
    by auto
  from assms(4) [OF RawReadSeeker] have ok: "seek_error (h a) = None" .
  have "replay n f h' = replicate n (Inr (contents (h a)))"
    by (rule replay_const [where P = "\<lambda>k. seek_error (k a) = None \<and> contents (k a) = contents (h a)"])
      (simp_all add: f h' ok obtain_read_def read_stream_def Seek0_def ReadAll_def)
  then show ?thesis ..
qed (use assms in auto)

section \<open>The stub runs\<close>

lemma DefaultBackoff_second_0: "DefaultBackoff oor second (30 * second) 0 resp = second"
  unfolding second_def by code_simp

lemma DefaultBackoff_second_1: "DefaultBackoff oor second (30 * second) 1 resp = 2 * second"
  unfolding second_def by code_simp

lemma stub_client_simps:
  "0 < m \<Longrightarrow> stub_client status m eh =
     \<lparr>Metrics = False, RetryMax = m, RetryWaitMin = second, RetryWaitMax = 30 * second,
      Logger = Some (StderrLogger ''[HTTP CLIENT]''),
      HttpClient = Some (stub_transport status), RequestModifier = None, RequestLogHook = None,
      ResponseLogHook = None, CheckRetry = Some DefaultRetryPolicy_fn,
      Backoff = Some (DefaultBackoff_fn (- (2 ^ 63))), ErrorHandler = eh\<rparr>"
  by (simp add: stub_client_def init_def zero_Config_def defaultRetryWaitMax_def)

lemma stub_at_first:
  "0 < m \<Longrightarrow> at_attempt (stub_client status m eh) (stub_request bd) 0 (stub_request bd) 0 None 0 []"
  by (rule at_first) (simp_all add: stub_client_simps modify_def)

lemma stub_attempt_503:
  assumes "0 < m" and "i < m"
  shows "attempt (stub_client 503 m eh) (stub_request None) i resp w tr =
           Continue (Some \<lparr>StatusCode = 503, Body = w\<rparr>) (Suc w)
             (tr @ [EvTransport i, EvCheckRetry i, EvDrainBody \<lparr>StatusCode = 503, Body = w\<rparr>,
                    EvBackoff i,
                    EvSleep (DefaultBackoff (- (2 ^ 63)) second (30 * second) i
                               (Some \<lparr>StatusCode = 503, Body = w\<rparr>))])"
  using assms
  by (simp add: stub_client_simps attempt_def rewind_def stub_request_def log_request_def
      stub_transport_def DefaultRetryPolicy_fn_def DefaultRetryPolicy_def log_response_def
      decide_def drain_def DefaultBackoff_fn_def)

lemma stub_at_attempt_2:
  "at_attempt (stub_client 503 2 eh) (stub_request None) 0 (stub_request None) 2
     (Some \<lparr>StatusCode = 503, Body = 1\<rparr>) 2
     [EvTransport 0, EvCheckRetry 0, EvDrainBody \<lparr>StatusCode = 503, Body = 0\<rparr>,
      EvBackoff 0, EvSleep second,
      EvTransport 1, EvCheckRetry 1, EvDrainBody \<lparr>StatusCode = 503, Body = 1\<rparr>,
      EvBackoff 1, EvSleep (2 * second)]"
proof -
  have a0: "at_attempt (stub_client 503 2 eh) (stub_request None) 0 (stub_request None) 0 None 0 []"
    by (rule stub_at_first) simp
  have a1: "at_attempt (stub_client 503 2 eh) (stub_request None) 0 (stub_request None) (0 + 1)
      (Some \<lparr>StatusCode = 503, Body = 0\<rparr>) (Suc 0)
      ([] @ [EvTransport 0, EvCheckRetry 0, EvDrainBody \<lparr>StatusCode = 503, Body = 0\<rparr>,
             EvBackoff 0, EvSleep second])"
    using stub_attempt_503 [of 2 0 eh None 0 "[]"]
    by (intro at_next [OF a0]) (simp add: DefaultBackoff_second_0)
  have a2: "at_attempt (stub_client 503 2 eh) (stub_request None) 0 (stub_request None) (1 + 1)
      (Some \<lparr>StatusCode = 503, Body = 1\<rparr>) (Suc 1)
      ([EvTransport 0, EvCheckRetry 0, EvDrainBody \<lparr>StatusCode = 503, Body = 0\<rparr>,
             EvBackoff 0, EvSleep second] @
       [EvTransport 1, EvCheckRetry 1, EvDrainBody \<lparr>StatusCode = 503, Body = 1\<rparr>,
             EvBackoff 1, EvSleep (2 * second)])"
    using stub_attempt_503 [of 2 1 eh "Some \<lparr>StatusCode = 503, Body = 0\<rparr>" 1
        "[EvTransport 0, EvCheckRetry 0, EvDrainBody \<lparr>StatusCode = 503, Body = 0\<rparr>,
             EvBackoff 0, EvSleep second]"] a1
    by (intro at_next [where i = 1 and w = 1]) (simp_all add: DefaultBackoff_second_1)
  then show ?thesis by (simp add: numeral_2_eq_2)
qed

lemma stub_rewind_None: "rewind (stub_request None) i w tr = (Inr (Request (stub_request None)), w, tr)"
  by (simp add: rewind_def stub_request_def)

lemma stub_third_pass_cfg:
  shows "at_attempt (stub_client 503 2 eh) (stub_request None) 0 (stub_request None) 2
           (Some (r503 1)) 2 two_passes"
    and "log_request (stub_client 503 2 eh) (Request (stub_request None)) 2 2 two_passes =
           (2, two_passes)"
    and "HttpClient (stub_client 503 2 eh) = Some (stub_transport 503)"
    and "CheckRetry (stub_client 503 2 eh) = Some DefaultRetryPolicy_fn"
    and "log_response (stub_client 503 2 eh) 2 (Some (r503 2)) None 3
             (two_passes @ [EvTransport 2, EvCheckRetry 2]) =
           (3, two_passes @ [EvTransport 2, EvCheckRetry 2])"
    and "RetryMax (stub_client 503 2 eh) - 2 \<le> 0"
proof -
  show "at_attempt (stub_client 503 2 eh) (stub_request None) 0 (stub_request None) 2
           (Some (r503 1)) 2 two_passes"
    using stub_at_attempt_2 [of eh] by (simp add: r503_def two_passes_def)
qed (simp_all add: stub_client_simps log_request_def log_response_def)

lemma stub_third_pass_io:
  shows "rewind (stub_request None) 2 2 two_passes =
           (Inr (Request (stub_request None)), 2, two_passes)"
    and "stub_transport 503 (Request (stub_request None)) 2 = ((Some (r503 2), None), 3)"
    and "DefaultRetryPolicy_fn (Context (Request (stub_request None)) 3) (Some (r503 2)) None 3 =
           (Inr (True, None), 3)"
  by (simp_all add: rewind_def stub_transport_def r503_def stub_request_def
      DefaultRetryPolicy_fn_def DefaultRetryPolicy_def)

lemma stub_first_pass:
  shows "at_attempt (stub_client status 2 None) (stub_request bd) w (stub_request bd) 0 None w []"
    and "HttpClient (stub_client status 2 None) = Some (stub_transport status)"
    and "CheckRetry (stub_client status 2 None) = Some DefaultRetryPolicy_fn"
    and "Backoff (stub_client status 2 None) = Some (DefaultBackoff_fn (- (2 ^ 63)))"
    and "log_request (stub_client status 2 None) hreq 0 w tr = (w, tr)"
    and "log_response (stub_client status 2 None) 0 resp err w tr = (w, tr)"
    and "stub_transport status hreq w = ((Some \<lparr>StatusCode = status, Body = w\<rparr>, None), Suc w)"
  by (rule at_first)
    (simp_all add: stub_client_simps modify_def log_request_def log_response_def stub_transport_def)

section \<open>The claims\<close>

text \<open>
  C1, as stated, fails: the policy has no upper bound on the status code. The source
  tests \<^verbatim>\<open>resp.StatusCode >= 500 && resp.StatusCode != 501\<close> and its comment says this
  catches invalid codes such as 999, so 999 is retried although it is neither 0 nor in
  \<open>[500, 600)\<close>.
\<close>

theorem DefaultRetryPolicy_999_retried:
  "DefaultRetryPolicy None (Some \<lparr>StatusCode = 999, Body = 0\<rparr>) None = Inr (True, None)
   \<and> (999 :: int) \<notin> insert 0 ({500 ..< 600} - {501})"
  by (simp add: DefaultRetryPolicy_def)

text \<open>
  C1, amended: whenever a response or an error is present or the context is done,
  \<^verbatim>\<open>DefaultRetryPolicy\<close> returns \<open>shouldRetry = true\<close> exactly when the context is not
  done and either the transport reported an error or the status code is 0 or at least 500
  and not 501; the override error is the context's error when the context is done and
  the transport error otherwise. For the status codes 200, 404 and 501 and no transport
  error it returns \<open>false\<close>.
\<close>

theorem DefaultRetryPolicy_decision:
  assumes "ctx \<noteq> None \<or> err \<noteq> None \<or> resp \<noteq> None"
  shows "DefaultRetryPolicy ctx resp err =
           Inr (ctx = None \<and>
                  (err \<noteq> None \<or>
                   (case resp of
                      None \<Rightarrow> False
                    | Some r \<Rightarrow> StatusCode r = 0 \<or> (500 \<le> StatusCode r \<and> StatusCode r \<noteq> 501))),
                if ctx \<noteq> None then ctx else err)
         \<and> (StatusCode r' \<in> {200, 404, 501}
              \<longrightarrow> DefaultRetryPolicy ctx (Some r') None = Inr (False, ctx))"
  using assms by (auto simp: DefaultRetryPolicy_def split: option.splits)

theorem DefaultRetryPolicy_decision_witness:
  "DefaultRetryPolicy None (Some \<lparr>StatusCode = 503, Body = 0\<rparr>) None = Inr (True, None)
   \<and> DefaultRetryPolicy None (Some \<lparr>StatusCode = 404, Body = 0\<rparr>) None = Inr (False, None)
   \<and> DefaultRetryPolicy (Some Canceled) None (Some (ErrorString ''dial tcp'')) = Inr (False, Some Canceled)
   \<and> DefaultRetryPolicy None None (Some (ErrorString ''dial tcp'')) = Inr (True, Some (ErrorString ''dial tcp''))"
  using DefaultRetryPolicy_decision [of None None "Some \<lparr>StatusCode = 503, Body = 0\<rparr>" "\<lparr>StatusCode = 404, Body = 0\<rparr>"]
    DefaultRetryPolicy_decision [of "Some Canceled" "Some (ErrorString ''dial tcp'')" None "\<lparr>StatusCode = 404, Body = 0\<rparr>"]
    DefaultRetryPolicy_decision [of None "Some (ErrorString ''dial tcp'')" None "\<lparr>StatusCode = 404, Body = 0\<rparr>"]
  by simp

text \<open>
  C2: with \<open>RetryMax c \<ge> 0\<close> a call of \<^verbatim>\<open>Do\<close> invokes the transport at most
  \<open>RetryMax c + 1\<close> times; the loop terminates from every state (every state lies in the
  domain of the recursion); and when the policy asks for a retry at attempt \<open>i\<close> with
  \<open>RetryMax c - i \<le> 0\<close>, \<^verbatim>\<open>Do\<close> goes to the code after the loop at once: no backoff
  is computed and no sleep happens after the top of that attempt.
\<close>

theorem Do_attempt_budget:
  "(0 \<le> RetryMax c \<longrightarrow> attempts (snd (snd (Do c req w0))) \<le> nat (RetryMax c + 1))
   \<and> do_loop_dom (c, req1, i, resp, w, tr)
   \<and> (at_attempt c req w0 req1 i resp w tr
        \<and> rewind req1 i w tr = (Inr hreq, w1, tr1)
        \<and> log_request c hreq i w1 tr1 = (w2, tr2)
        \<and> HttpClient c = Some t \<and> t hreq w2 = ((resp', err), w3)
        \<and> CheckRetry c = Some p
        \<and> p (Context hreq w3) resp' err w3 = (Inr (True, checkErr), w4)
        \<and> log_response c i resp' err w4 (tr2 @ [EvTransport i, EvCheckRetry i]) = (w5, tr5)
        \<and> RetryMax c - i \<le> 0
      \<longrightarrow> Do c req w0 = giving_up c req1 resp' err w5 tr5
          \<and> filter is_wait (snd (snd (Do c req w0))) = filter is_wait tr)"
proof (intro conjI impI)
  assume "0 \<le> RetryMax c"
  then show "attempts (snd (snd (Do c req w0))) \<le> nat (RetryMax c + 1)"
    by (rule Do_attempts)
next
  show "do_loop_dom (c, req1, i, resp, w, tr)"
    by (rule do_loop_terminates)
next
  assume a: "at_attempt c req w0 req1 i resp w tr
        \<and> rewind req1 i w tr = (Inr hreq, w1, tr1)
        \<and> log_request c hreq i w1 tr1 = (w2, tr2)
        \<and> HttpClient c = Some t \<and> t hreq w2 = ((resp', err), w3)
        \<and> CheckRetry c = Some p
        \<and> p (Context hreq w3) resp' err w3 = (Inr (True, checkErr), w4)
        \<and> log_response c i resp' err w4 (tr2 @ [EvTransport i, EvCheckRetry i]) = (w5, tr5)
        \<and> RetryMax c - i \<le> 0"
  then have at: "at_attempt c req w0 req1 i resp w tr"
    and h: "rewind req1 i w tr = (Inr hreq, w1, tr1)"
      "log_request c hreq i w1 tr1 = (w2, tr2)"
      "HttpClient c = Some t" "t hreq w2 = ((resp', err), w3)"
      "CheckRetry c = Some p"
      "p (Context hreq w3) resp' err w3 = (Inr (True, checkErr), w4)"
      "log_response c i resp' err w4 (tr2 @ [EvTransport i, EvCheckRetry i]) = (w5, tr5)"
      "RetryMax c - i \<le> 0"
    by simp_all
  have att: "attempt c req1 i resp w tr = Break resp' err w5 tr5"
    by (rule attempt_exhausted [OF h])
  have "Do c req w0 = do_loop c req1 i resp w tr"
    using at by (rule Do_at_attempt)
  with att show d: "Do c req w0 = giving_up c req1 resp' err w5 tr5"
    by (simp add: do_loop.simps [of c req1 i])
  from attempt_trace [of c req1 i resp w tr] att obtain evs where
    "tr5 = tr @ evs" "filter is_wait evs = []"
    by auto
  moreover from giving_up_trace [of c req1 resp' err w5 tr5] obtain gs where
    "snd (snd (giving_up c req1 resp' err w5 tr5)) = tr5 @ gs" "filter is_wait gs = []"
    by blast
  ultimately show "filter is_wait (snd (snd (Do c req w0))) = filter is_wait tr"
    using d by simp
qed

theorem Do_attempt_budget_witness:
  "attempts (snd (snd (Do (stub_client 503 2 None) (stub_request None) 0))) \<le> 3
   \<and> Do (stub_client 503 2 None) (stub_request None) 0 =
       (Inr (None, Some (GivingUp ''POST'' ''http://example.test/'' 3)), 3,
        [EvTransport 0, EvCheckRetry 0, EvDrainBody \<lparr>StatusCode = 503, Body = 0\<rparr>,
         EvBackoff 0, EvSleep second,
         EvTransport 1, EvCheckRetry 1, EvDrainBody \<lparr>StatusCode = 503, Body = 1\<rparr>,
         EvBackoff 1, EvSleep (2 * second),
         EvTransport 2, EvCheckRetry 2, EvClose \<lparr>StatusCode = 503, Body = 2\<rparr>])"
proof -
  let ?c = "stub_client 503 2 None"
  let ?tr = "[EvTransport 0, EvCheckRetry 0, EvDrainBody \<lparr>StatusCode = 503, Body = 0\<rparr>,
      EvBackoff 0, EvSleep second,
      EvTransport 1, EvCheckRetry 1, EvDrainBody \<lparr>StatusCode = 503, Body = 1\<rparr>,
      EvBackoff 1, EvSleep (2 * second)]"
  have c: "?c = \<lparr>Metrics = False, RetryMax = 2, RetryWaitMin = second, RetryWaitMax = 30 * second,
      Logger = Some (StderrLogger ''[HTTP CLIENT]''),
      HttpClient = Some (stub_transport 503), RequestModifier = None, RequestLogHook = None,
      ResponseLogHook = None, CheckRetry = Some DefaultRetryPolicy_fn,
      Backoff = Some (DefaultBackoff_fn (- (2 ^ 63))), ErrorHandler = None\<rparr>"
    by (rule stub_client_simps) simp
  have h1: "at_attempt ?c (stub_request None) 0 (stub_request None) 2
        (Some \<lparr>StatusCode = 503, Body = 1\<rparr>) 2 ?tr"
    by (rule stub_at_attempt_2)
  have h2: "rewind (stub_request None) 2 2 ?tr = (Inr (Request (stub_request None)), 2, ?tr)"
    by (rule stub_rewind_None)
  have h3: "log_request ?c (Request (stub_request None)) 2 2 ?tr = (2, ?tr)"
    by (simp add: c log_request_def)
  have h4: "HttpClient ?c = Some (stub_transport 503)"
    and h6: "CheckRetry ?c = Some DefaultRetryPolicy_fn"
    and h9: "RetryMax ?c - 2 \<le> 0"
    by (simp_all add: c)
  have h5: "stub_transport 503 (Request (stub_request None)) 2 =
          ((Some \<lparr>StatusCode = 503, Body = 2\<rparr>, None), 3)"
    by (simp add: stub_transport_def)
  have h7: "DefaultRetryPolicy_fn (Context (Request (stub_request None)) 3)
            (Some \<lparr>StatusCode = 503, Body = 2\<rparr>) None 3 = (Inr (True, None), 3)"
    by (simp add: stub_request_def DefaultRetryPolicy_fn_def DefaultRetryPolicy_def)
  have h8: "log_response ?c 2 (Some \<lparr>StatusCode = 503, Body = 2\<rparr>) None 3
            (?tr @ [EvTransport 2, EvCheckRetry 2]) = (3, ?tr @ [EvTransport 2, EvCheckRetry 2])"
    by (simp add: c log_response_def)
  have r: "0 \<le> RetryMax ?c" by (simp add: c)
  note T = Do_attempt_budget [where c = ?c and req = "stub_request None" and ?w0.0 = 0
      and ?req1.0 = "stub_request None" and i = 2
      and resp = "Some \<lparr>StatusCode = 503, Body = 1\<rparr>" and w = 2 and tr = ?tr
      and hreq = "Request (stub_request None)" and ?w1.0 = 2 and ?tr1.0 = ?tr
      and ?w2.0 = 2 and ?tr2.0 = ?tr and t = "stub_transport 503"
      and resp' = "Some \<lparr>StatusCode = 503, Body = 2\<rparr>" and err = None and ?w3.0 = 3
      and p = DefaultRetryPolicy_fn and checkErr = None and ?w4.0 = 3 and ?w5.0 = 3
      and ?tr5.0 = "?tr @ [EvTransport 2, EvCheckRetry 2]"]
  from T [THEN conjunct1, THEN mp, OF r]
  have "attempts (snd (snd (Do ?c (stub_request None) 0))) \<le> nat (RetryMax ?c + 1)" .
  moreover from T [THEN conjunct2, THEN conjunct2, THEN mp, OF conjI [OF h1 conjI [OF h2
      conjI [OF h3 conjI [OF h4 conjI [OF h5 conjI [OF h6 conjI [OF h7 conjI [OF h8 h9]]]]]]]]]
  have "Do ?c (stub_request None) 0 =
      giving_up ?c (stub_request None) (Some \<lparr>StatusCode = 503, Body = 2\<rparr>) None 3
        (?tr @ [EvTransport 2, EvCheckRetry 2])"
    by (rule conjunct1)
  ultimately have "attempts (snd (snd (Do ?c (stub_request None) 0))) \<le> nat (RetryMax ?c + 1)
    \<and> Do ?c (stub_request None) 0 =
      giving_up ?c (stub_request None) (Some \<lparr>StatusCode = 503, Body = 2\<rparr>) None 3
        (?tr @ [EvTransport 2, EvCheckRetry 2])"
    by (rule conjI)
  then show ?thesis
    by (simp add: c giving_up_def stub_request_def attempts_def)
qed

text \<open>
  C3: when the policy asks for a retry and the budget is used up, \<^verbatim>\<open>Do\<close> without an
  \<^verbatim>\<open>ErrorHandler\<close> closes the body of the last response, if there is one, and returns
  no response and the giving-up error with the method, the URL and \<open>RetryMax c + 1\<close>;
  with an \<^verbatim>\<open>ErrorHandler\<close> it calls the handler with the last response, the last error
  and \<open>RetryMax c + 1\<close>, returns what the handler returns, and that call is the only
  handler call of the run. For \<open>RetryMax c \<ge> 0\<close> the transport was then called
  \<open>RetryMax c + 1\<close> times.
\<close>

theorem Do_giving_up:
  assumes "at_attempt c req w0 req1 i resp w tr"
    and "rewind req1 i w tr = (Inr hreq, w1, tr1)"
    and "log_request c hreq i w1 tr1 = (w2, tr2)"
    and "HttpClient c = Some t" and "t hreq w2 = ((resp', err), w3)"
    and "CheckRetry c = Some p"
    and "p (Context hreq w3) resp' err w3 = (Inr (True, checkErr), w4)"
    and "log_response c i resp' err w4 (tr2 @ [EvTransport i, EvCheckRetry i]) = (w5, tr5)"
    and "RetryMax c - i \<le> 0"
  shows "(ErrorHandler c = None \<longrightarrow>
            Do c req w0 =
              (Inr (None, Some (GivingUp (Method (Request req1)) (URL (Request req1))
                                  (RetryMax c + 1))),
               w5, tr5 @ (case resp' of Some r \<Rightarrow> [EvClose r] | None \<Rightarrow> [])))
         \<and> (ErrorHandler c = Some h \<longrightarrow>
              Do c req w0 =
                (Inr (fst (h resp' err (RetryMax c + 1) w5)),
                 snd (h resp' err (RetryMax c + 1) w5),
                 tr5 @ [EvErrorHandler resp' err (RetryMax c + 1)])
              \<and> filter is_handler (snd (snd (Do c req w0))) =
                  [EvErrorHandler resp' err (RetryMax c + 1)])
         \<and> (0 \<le> RetryMax c \<longrightarrow> int (attempts (snd (snd (Do c req w0)))) = RetryMax c + 1)"
proof -
  have att: "attempt c req1 i resp w tr = Break resp' err w5 tr5"
    by (rule attempt_exhausted [OF assms(2-9)])
  have "Do c req w0 = do_loop c req1 i resp w tr"
    using assms(1) by (rule Do_at_attempt)
  with att have d: "Do c req w0 = giving_up c req1 resp' err w5 tr5"
    by (simp add: do_loop.simps [of c req1 i])
  from rewind_trace [OF assms(2)] log_request_trace [OF assms(3)] log_response_trace [OF assms(8)]
  obtain evs where evs: "tr5 = tr @ evs" "filter is_handler evs = []"
    "length (filter is_transport evs) = 1"
    by auto
  have nh: "filter is_handler tr = []"
    using assms(1) by (rule at_attempt_no_handler)
  from at_attempt_attempts [OF assms(1)] at_attempt_bound [OF assms(1)] assms(9)
  have cnt: "0 \<le> RetryMax c \<Longrightarrow> int (attempts tr) = RetryMax c"
    by simp
  from giving_up_trace [of c req1 resp' err w5 tr5] obtain gs where gs:
    "snd (snd (giving_up c req1 resp' err w5 tr5)) = tr5 @ gs" "filter is_transport gs = []"
    by blast
  have 1: "ErrorHandler c = None \<longrightarrow>
            Do c req w0 =
              (Inr (None, Some (GivingUp (Method (Request req1)) (URL (Request req1))
                                  (RetryMax c + 1))),
               w5, tr5 @ (case resp' of Some r \<Rightarrow> [EvClose r] | None \<Rightarrow> []))"
    by (simp add: d giving_up_def split: option.splits)
  have 2: "ErrorHandler c = Some h \<longrightarrow>
              Do c req w0 =
                (Inr (fst (h resp' err (RetryMax c + 1) w5)),
                 snd (h resp' err (RetryMax c + 1) w5),
                 tr5 @ [EvErrorHandler resp' err (RetryMax c + 1)])
              \<and> filter is_handler (snd (snd (Do c req w0))) =
                  [EvErrorHandler resp' err (RetryMax c + 1)]"
    using evs nh by (auto simp: d giving_up_def split: prod.splits)
  have 3: "0 \<le> RetryMax c \<longrightarrow> int (attempts (snd (snd (Do c req w0)))) = RetryMax c + 1"
    using cnt evs gs by (auto simp: d attempts_def)
  from 1 2 3 show ?thesis by blast
qed

theorem Do_giving_up_witness:
  "Do (stub_client 503 2 None) (stub_request None) 0 =
     (Inr (None, Some (GivingUp ''POST'' ''http://example.test/'' 3)), 3,
      two_passes @ [EvTransport 2, EvCheckRetry 2, EvClose (r503 2)])
   \<and> Do (stub_client 503 2 (Some PassthroughErrorHandler)) (stub_request None) 0 =
     (Inr (Some (r503 2), None), 3,
      two_passes @ [EvTransport 2, EvCheckRetry 2, EvErrorHandler (Some (r503 2)) None 3])
   \<and> attempts (snd (snd (Do (stub_client 503 2 None) (stub_request None) 0))) = 3"
proof -
  note io = stub_third_pass_io
  note cN = stub_third_pass_cfg [of None]
  note cP = stub_third_pass_cfg [of "Some PassthroughErrorHandler"]
  note A = Do_giving_up [where h = PassthroughErrorHandler,
      OF cN(1) io(1) cN(2) cN(3) io(2) cN(4) io(3) cN(5) cN(6)]
  note B = Do_giving_up [where h = PassthroughErrorHandler,
      OF cP(1) io(1) cP(2) cP(3) io(2) cP(4) io(3) cP(5) cP(6)]
  have n: "ErrorHandler (stub_client 503 2 None) = None"
    and s: "ErrorHandler (stub_client 503 2 (Some PassthroughErrorHandler)) =
      Some PassthroughErrorHandler"
    and m: "RetryMax (stub_client 503 2 eh) = 2" for eh
    by (simp_all add: stub_client_simps)
  from A [THEN conjunct1, THEN mp, OF n]
  have 1: "Do (stub_client 503 2 None) (stub_request None) 0 =
     (Inr (None, Some (GivingUp ''POST'' ''http://example.test/'' 3)), 3,
      two_passes @ [EvTransport 2, EvCheckRetry 2, EvClose (r503 2)])"
    by (simp add: m stub_request_def)
  from B [THEN conjunct2, THEN conjunct1, THEN mp, OF s, THEN conjunct1]
  have 2: "Do (stub_client 503 2 (Some PassthroughErrorHandler)) (stub_request None) 0 =
     (Inr (Some (r503 2), None), 3,
      two_passes @ [EvTransport 2, EvCheckRetry 2, EvErrorHandler (Some (r503 2)) None 3])"
    by (simp add: m PassthroughErrorHandler_def)
  from A [THEN conjunct2, THEN conjunct2, THEN mp]
  have 3: "attempts (snd (snd (Do (stub_client 503 2 None) (stub_request None) 0))) = 3"
    by (simp add: m)
  from 1 2 3 show ?thesis by blast
qed

text \<open>
  C4 fails on the code: \<^verbatim>\<open>init\<close> guards the default of \<^verbatim>\<open>RetryWaitMin\<close> with
  \<^verbatim>\<open>c.RetryMax <= 0\<close>. A configuration with 3 retries and no minimum wait keeps the
  minimum wait 0.
\<close>

theorem init_min_wait_not_defaulted:
  "RetryWaitMin (init dflt oor (c\<lparr>RetryMax := 3, RetryWaitMin := 0\<rparr>)) = 0
   \<and> RetryMax (init dflt oor (c\<lparr>RetryMax := 3, RetryWaitMin := 0\<rparr>)) = 3"
  by (simp add: init_def Let_def)

text \<open>
  C5: when the policy returns \<open>shouldRetry = false\<close> at attempt \<open>i\<close>, \<^verbatim>\<open>Do\<close> returns
  the response of that attempt as the transport gave it, with the override error of the
  policy when there is one and the transport error otherwise. The trace ends where the
  response hook left it: after the policy's answer \<^verbatim>\<open>Do\<close> neither drains nor closes
  the body, computes no backoff and calls no error handler.
\<close>

theorem Do_policy_declines:
  assumes "at_attempt c req w0 req1 i resp w tr"
    and "rewind req1 i w tr = (Inr hreq, w1, tr1)"
    and "log_request c hreq i w1 tr1 = (w2, tr2)"
    and "HttpClient c = Some t" and "t hreq w2 = ((resp', err), w3)"
    and "CheckRetry c = Some p"
    and "p (Context hreq w3) resp' err w3 = (Inr (False, checkErr), w4)"
    and "log_response c i resp' err w4 (tr2 @ [EvTransport i, EvCheckRetry i]) = (w5, tr5)"
  shows "Do c req w0 =
           (Inr (resp', case checkErr of Some e \<Rightarrow> Some e | None \<Rightarrow> err), w5, tr5)"
proof -
  have "Do c req w0 = do_loop c req1 i resp w tr"
    using assms(1) by (rule Do_at_attempt)
  also have "\<dots> = (Inr (resp', if checkErr \<noteq> None then checkErr else err), w5, tr5)"
    using attempt_declined [OF assms(2-8)] by (simp add: do_loop.simps [of c req1 i])
  finally show ?thesis by (cases checkErr) simp_all
qed

theorem Do_policy_declines_witness:
  "Do (stub_client 404 2 None) (stub_request None) 0 =
     (Inr (Some \<lparr>StatusCode = 404, Body = 0\<rparr>, None), Suc 0,
      [EvTransport 0, EvCheckRetry 0])"
proof -
  have p: "DefaultRetryPolicy_fn (Context (Request (stub_request None)) (Suc 0))
      (Some \<lparr>StatusCode = 404, Body = 0\<rparr>) None (Suc 0) = (Inr (False, None), Suc 0)"
    by (simp add: DefaultRetryPolicy_fn_def DefaultRetryPolicy_def stub_request_def)
  from Do_policy_declines [OF stub_first_pass(1) stub_rewind_None stub_first_pass(5)
      stub_first_pass(2) stub_first_pass(7) stub_first_pass(3) p stub_first_pass(6)]
  show ?thesis by simp
qed

text \<open>
  C6: when the body factory fails at attempt \<open>i\<close>, \<^verbatim>\<open>Do\<close> returns that error at
  once. The trace ends with the call of the factory: no transport call, no policy call,
  no backoff, no sleep and no further attempt follow.
\<close>

theorem Do_body_failure:
  assumes "at_attempt c req w0 req1 i resp w tr"
    and "rewind req1 i w tr = (Inl e, w1, tr1)"
  shows "Do c req w0 = (Inr (resp, Some e), w1, tr @ [EvBody i])"
  using assms by (rule body_failure_returns)

theorem Do_body_failure_witness:
  "Do (stub_client 503 2 None) (stub_request (Some stub_body)) 1 =
     (Inr (None, Some (ErrorString ''body consumed'')), 1, [EvBody 0])"
proof -
  have "rewind (stub_request (Some stub_body)) 0 1 [] =
      (Inl (ErrorString ''body consumed''), 1, [EvBody 0])"
    by (simp add: rewind_def stub_request_def stub_body_def)
  from Do_body_failure [OF stub_first_pass(1) this] show ?thesis by simp
qed

text \<open>
  C10: when attempt \<open>i\<close> ends with a response \<open>r\<close> and no transport error, the policy
  asks for a retry with budget left, and the body factory fails at attempt \<open>i + 1\<close>,
  \<^verbatim>\<open>Do\<close> returns \<open>r\<close> together with the factory's error; the body of \<open>r\<close> was drained
  and closed before the wait. The stub run after the theorem is such a call under the
  default policy, backoff and error handling, with a context that is never cancelled.
\<close>

theorem Do_body_failure_after_response:
  assumes "at_attempt c req w0 req1 i resp w tr"
    and "rewind req1 i w tr = (Inr hreq, w1, tr1)"
    and "log_request c hreq i w1 tr1 = (w2, tr2)"
    and "HttpClient c = Some t" and "t hreq w2 = ((Some r, None), w3)"
    and "CheckRetry c = Some p"
    and "p (Context hreq w3) (Some r) None w3 = (Inr (True, checkErr), w4)"
    and "log_response c i (Some r) None w4 (tr2 @ [EvTransport i, EvCheckRetry i]) = (w5, tr5)"
    and "0 < RetryMax c - i"
    and "Backoff c = Some b" and "b (RetryWaitMin c) (RetryWaitMax c) i (Some r) w5 = (wait, w6)"
    and "rewind req1 (i + 1) w6 (tr5 @ [EvDrainBody r, EvBackoff i, EvSleep wait]) = (Inl e, w7, tr7)"
  shows "Do c req w0 =
           (Inr (Some r, Some e), w7,
            tr5 @ [EvDrainBody r, EvBackoff i, EvSleep wait, EvBody (i + 1)])"
proof -
  have att: "attempt c req1 i resp w tr =
      Continue (Some r) w6 (tr5 @ [EvDrainBody r, EvBackoff i, EvSleep wait])"
    using assms(2-11) by (simp add: attempt_def decide_def drain_def)
  have "at_attempt c req w0 req1 (i + 1) (Some r) w6 (tr5 @ [EvDrainBody r, EvBackoff i, EvSleep wait])"
    using assms(1) att by (rule at_next)
  from body_failure_returns [OF this assms(12)] show ?thesis by simp
qed

theorem Do_body_failure_after_response_witness:
  "Do (stub_client 503 2 None) (stub_request (Some stub_body)) 0 =
     (Inr (Some (r503 0), Some (ErrorString ''body consumed'')), 1,
      [EvBody 0, EvTransport 0, EvCheckRetry 0, EvDrainBody (r503 0), EvBackoff 0,
       EvSleep second, EvBody 1])"
proof -
  let ?hreq = "(Request (stub_request (Some stub_body)))\<lparr>ReqBody := Some ''payload''\<rparr>"
  have rw0: "rewind (stub_request (Some stub_body)) 0 0 [] = (Inr ?hreq, 0, [EvBody 0])"
    by (simp add: rewind_def stub_request_def stub_body_def)
  have tq: "stub_transport 503 ?hreq 0 = ((Some (r503 0), None), Suc 0)"
    by (simp add: stub_transport_def r503_def)
  have p: "DefaultRetryPolicy_fn (Context ?hreq (Suc 0)) (Some (r503 0)) None (Suc 0) =
      (Inr (True, None), Suc 0)"
    by (simp add: DefaultRetryPolicy_fn_def DefaultRetryPolicy_def stub_request_def r503_def)
  have budget: "0 < RetryMax (stub_client 503 2 None) - 0"
    and mn: "RetryWaitMin (stub_client 503 2 None) = second"
    and mx: "RetryWaitMax (stub_client 503 2 None) = 30 * second"
    by (simp_all add: stub_client_simps)
  have bq: "DefaultBackoff_fn (- (2 ^ 63)) (RetryWaitMin (stub_client 503 2 None))
      (RetryWaitMax (stub_client 503 2 None)) 0 (Some (r503 0)) (Suc 0) = (second, Suc 0)"
    by (simp add: mn mx DefaultBackoff_fn_def DefaultBackoff_second_0)
  have rw1: "rewind (stub_request (Some stub_body)) (0 + 1) (Suc 0)
      (([EvBody 0] @ [EvTransport 0, EvCheckRetry 0]) @
       [EvDrainBody (r503 0), EvBackoff 0, EvSleep second]) =
      (Inl (ErrorString ''body consumed''), Suc 0,
       [EvBody 0, EvTransport 0, EvCheckRetry 0, EvDrainBody (r503 0), EvBackoff 0,
        EvSleep second, EvBody 1])"
    by (simp add: rewind_def stub_request_def stub_body_def)
  from Do_body_failure_after_response [OF stub_first_pass(1) rw0 stub_first_pass(5)
      stub_first_pass(2) tq stub_first_pass(3) p stub_first_pass(6) budget
      stub_first_pass(4) bq rw1]
  show ?thesis by simp
qed

text \<open>
  C7, as stated, fails: the source computes in float64, and \<^verbatim>\<open>float64(min)\<close> rounds a
  duration beyond \<open>2 ^ 53\<close> nanoseconds. With \<open>minWait = 2 ^ 53 + 1\<close>, attempt 0 and
  \<open>maxWait = 2 ^ 62\<close> nothing overflows, yet the result is \<open>2 ^ 53\<close> and not
  \<open>min (minWait * 2 ^ 0) maxWait\<close>.
\<close>

theorem DefaultBackoff_rounds_min:
  "DefaultBackoff (- (2 ^ 63)) (2 ^ 53 + 1) (2 ^ 62) 0 None = 2 ^ 53
   \<and> min ((2 ^ 53 + 1) * 2 ^ 0) (2 ^ 62 :: int) = 2 ^ 53 + 1"
proof -
  have "DefaultBackoff (- (2 ^ 63)) (2 ^ 53 + 1) (2 ^ 62) 0 None =
      min (float64_of (2 ^ 53 + 1) * 2 ^ nat 0) (2 ^ 62)"
    by (rule default_backoff_in_range) (simp_all add: float64_of_rounds in_int64_def)
  then show ?thesis by (simp add: float64_of_rounds)
qed

text \<open>
  C7, amended: for \<open>n \<ge> 0\<close>, \<^verbatim>\<open>DefaultBackoff\<close> returns \<open>min (f * 2 ^ n) maxWait\<close> where
  \<open>f = float64_of minWait\<close> is \<open>minWait\<close> as a float64 (\<open>minWait\<close> itself up to \<open>2 ^ 53\<close>
  in magnitude, and never more than 512 away), whenever \<open>n < 1024\<close> and \<open>f * 2 ^ n\<close> is
  an \<^verbatim>\<open>int64\<close>. It returns \<open>maxWait\<close> when \<open>2 ^ n\<close> overflows float64 (\<open>n \<ge> 1024\<close>), and
  when \<open>f * 2 ^ n\<close> is no \<^verbatim>\<open>int64\<close> and the platform's out-of-range conversion \<open>oor\<close>
  is not a value that converts back to \<open>2 ^ 63\<close> below \<open>maxWait\<close> (amd64 yields
  \<open>- 2 ^ 63\<close>, arm64 saturates: both qualify). In particular
  \<open>backoff(1s, 30s, 0) = 1s\<close>, \<open>backoff(1s, 30s, 4) = 16s\<close> and \<open>backoff(1s, 30s, 10) = 30s\<close>.
\<close>

theorem DefaultBackoff_value:
  assumes "0 \<le> n" and "in_int64 n" and "in_int64 min_d" and "in_int64 oor"
  shows "f64_of_int64 min_d = Fin (of_int (float64_of min_d))
    \<and> (\<bar>min_d\<bar> \<le> 2 ^ 53 \<longrightarrow> float64_of min_d = min_d)
    \<and> \<bar>float64_of min_d - min_d\<bar> \<le> 512
    \<and> (n < 1024 \<and> in_int64 (float64_of min_d * 2 ^ nat n) \<longrightarrow>
          DefaultBackoff oor min_d max_d n resp = min (float64_of min_d * 2 ^ nat n) max_d)
    \<and> (n < 1024 \<and> \<not> in_int64 (float64_of min_d * 2 ^ nat n)
          \<and> (float64_of oor \<noteq> 2 ^ 63 \<or> max_d \<le> oor) \<longrightarrow>
          DefaultBackoff oor min_d max_d n resp = max_d)
    \<and> (1024 \<le> n \<longrightarrow> DefaultBackoff oor min_d max_d n resp = max_d)
    \<and> DefaultBackoff oor second (30 * second) 0 resp = second
    \<and> DefaultBackoff oor second (30 * second) 4 resp = 16 * second
    \<and> DefaultBackoff oor second (30 * second) 10 resp = 30 * second"
proof (intro conjI impI)
  show "f64_of_int64 min_d = Fin (of_int (float64_of min_d))"
    using assms(3) by (rule f64_of_int64_float64_of)
  show "float64_of min_d = min_d" if "\<bar>min_d\<bar> \<le> 2 ^ 53"
    using that by (rule float64_of_small)
  show "\<bar>float64_of min_d - min_d\<bar> \<le> 512"
    using assms(3) by (rule float64_of_error)
  show "DefaultBackoff oor min_d max_d n resp = min (float64_of min_d * 2 ^ nat n) max_d"
    if "n < 1024 \<and> in_int64 (float64_of min_d * 2 ^ nat n)"
    using that assms by (intro default_backoff_in_range) simp_all
  show "DefaultBackoff oor min_d max_d n resp = max_d"
    if "n < 1024 \<and> \<not> in_int64 (float64_of min_d * 2 ^ nat n)
          \<and> (float64_of oor \<noteq> 2 ^ 63 \<or> max_d \<le> oor)"
    using that assms by (intro default_backoff_out_of_range) simp_all
  show "DefaultBackoff oor min_d max_d n resp = max_d" if "1024 \<le> n"
    using that assms by (intro default_backoff_pow_overflow)
  show "DefaultBackoff oor second (30 * second) 0 resp = second"
    using DefaultBackoff_second [of 0 oor resp] by (simp add: second_def)
  show "DefaultBackoff oor second (30 * second) 4 resp = 16 * second"
    using DefaultBackoff_second [of 4 oor resp] by (simp add: second_def)
  show "DefaultBackoff oor second (30 * second) 10 resp = 30 * second"
    using DefaultBackoff_second [of 10 oor resp] by (simp add: second_def)
qed

theorem DefaultBackoff_value_witness:
  "DefaultBackoff (- (2 ^ 63)) (3 * second) (30 * second) 2 None = 12 * second
   \<and> DefaultBackoff (- (2 ^ 63)) 1 (30 * second) 63 None = 30 * second
   \<and> DefaultBackoff (- (2 ^ 63)) 0 (30 * second) 2000 None = 30 * second"
proof -
  have i: "in_int64 (- (2 ^ 63))" "in_int64 2" "in_int64 63" "in_int64 2000" "in_int64 0"
    "in_int64 1" "in_int64 (3 * second)"
    by (simp_all add: in_int64_def second_def)
  have f: "float64_of (- (2 ^ 63)) \<noteq> 2 ^ 63 \<or> 30 * second \<le> - (2 ^ 63)"
    by (simp add: float64_of_min_int)
  note A = DefaultBackoff_value [OF _ i(2) i(7) i(1), of "30 * second" None]
  have a3: "float64_of (3 * second) = 3 * second"
    using A by (simp add: second_def)
  have "DefaultBackoff (- (2 ^ 63)) (3 * second) (30 * second) 2 None = 12 * second"
    using A by (simp add: a3 in_int64_def second_def)
  moreover
  note B = DefaultBackoff_value [OF _ i(3) i(6) i(1), of "30 * second" None]
  have b1: "float64_of 1 = 1" using B by simp
  have "DefaultBackoff (- (2 ^ 63)) 1 (30 * second) 63 None = 30 * second"
    using B f by (simp add: b1 in_int64_def)
  moreover
  note C = DefaultBackoff_value [OF _ i(4) i(5) i(1), of "30 * second" None]
  have "DefaultBackoff (- (2 ^ 63)) 0 (30 * second) 2000 None = 30 * second"
    using C by simp
  ultimately show ?thesis by blast
qed

text \<open>
  C8, as stated, fails: \<^verbatim>\<open>time.Duration\<close> arithmetic wraps around. With
  \<open>minWait = maxWait = 2 ^ 62\<close> and attempt 1 the source returns \<open>- 2 ^ 63\<close>, not
  \<open>minWait * (1 + 1) = 2 ^ 63\<close>.
\<close>

theorem LinearJitterBackoff_wraps:
  "LinearJitterBackoff 0 0 (2 ^ 62) (2 ^ 62) 1 None = - (2 ^ 63)
   \<and> (2 ^ 62 :: int) * (1 + 1) = 2 ^ 63"
  by (simp add: LinearJitterBackoff_def wrap64_def)

text \<open>
  C8, amended: for an attempt number \<open>n \<ge> 0\<close> below the largest \<^verbatim>\<open>int\<close>,
  \<^verbatim>\<open>LinearJitterBackoff\<close> returns exactly \<open>minWait * (n + 1)\<close> when
  \<open>maxWait \<le> minWait\<close> and that product is an \<^verbatim>\<open>int64\<close> (so
  \<open>backoff(1s, 1s, 2) = 3s\<close>); otherwise, when \<open>maxWait - minWait\<close>, \<open>minWait * (n + 1)\<close>
  and \<open>maxWait * (n + 1)\<close> are \<^verbatim>\<open>int64\<close> values, for every float64 draw \<open>r\<close> in
  \<open>[0, 1)\<close> it returns \<open>(minWait + offset) * (n + 1)\<close> with an offset in
  \<open>[0, maxWait - minWait)\<close>, which lies within
  \<open>[minWait * (n + 1), maxWait * (n + 1)]\<close>.
\<close>

theorem LinearJitterBackoff_range:
  assumes "0 \<le> n" and "n + 1 < 2 ^ 63"
  shows "(max_d \<le> min_d \<and> in_int64 (min_d * (n + 1)) \<longrightarrow>
            LinearJitterBackoff oor r min_d max_d n resp = min_d * (n + 1))
    \<and> (min_d < max_d \<and> max_d - min_d < 2 ^ 63
          \<and> in_int64 (min_d * (n + 1)) \<and> in_int64 (max_d * (n + 1))
          \<and> is_float64 r \<and> 0 \<le> r \<and> r < 1 \<longrightarrow>
          (\<exists>offset. 0 \<le> offset \<and> offset < max_d - min_d
             \<and> LinearJitterBackoff oor r min_d max_d n resp = (min_d + offset) * (n + 1))
          \<and> min_d * (n + 1) \<le> LinearJitterBackoff oor r min_d max_d n resp
          \<and> LinearJitterBackoff oor r min_d max_d n resp \<le> max_d * (n + 1))
    \<and> LinearJitterBackoff oor r second second 2 resp = 3 * second"
proof (intro conjI impI)
  show "LinearJitterBackoff oor r min_d max_d n resp = min_d * (n + 1)"
    if "max_d \<le> min_d \<and> in_int64 (min_d * (n + 1))"
    using that assms by (intro linear_jitter_degenerate) simp_all
  show "LinearJitterBackoff oor r second second 2 resp = 3 * second"
    by (simp add: LinearJitterBackoff_def wrap64_def second_def)
next
  assume h: "min_d < max_d \<and> max_d - min_d < 2 ^ 63
          \<and> in_int64 (min_d * (n + 1)) \<and> in_int64 (max_d * (n + 1))
          \<and> is_float64 r \<and> 0 \<le> r \<and> r < 1"
  then have ex: "\<exists>offset. 0 \<le> offset \<and> offset < max_d - min_d
             \<and> LinearJitterBackoff oor r min_d max_d n resp = (min_d + offset) * (n + 1)"
    using assms by (intro linear_jitter_offset) simp_all
  then show "\<exists>offset. 0 \<le> offset \<and> offset < max_d - min_d
             \<and> LinearJitterBackoff oor r min_d max_d n resp = (min_d + offset) * (n + 1)" .
  from ex obtain offset where o: "0 \<le> offset" "offset < max_d - min_d"
    "LinearJitterBackoff oor r min_d max_d n resp = (min_d + offset) * (n + 1)"
    by blast
  show "min_d * (n + 1) \<le> LinearJitterBackoff oor r min_d max_d n resp"
    unfolding o(3) using o(1) assms(1) by (intro mult_right_mono) simp_all
  show "LinearJitterBackoff oor r min_d max_d n resp \<le> max_d * (n + 1)"
    unfolding o(3) using o(2) assms(1) by (intro mult_right_mono) simp_all
qed

theorem LinearJitterBackoff_range_witness:
  "2400000000 \<le> LinearJitterBackoff 0 (1 / 2) 800000000 1200000000 2 None
   \<and> LinearJitterBackoff 0 (1 / 2) 800000000 1200000000 2 None \<le> 3600000000
   \<and> LinearJitterBackoff 0 (1 / 2) second second 2 None = 3 * second"
proof -
  have "is_float64 (2 powi (- 1))" by (rule is_float64_pow2) simp_all
  then have f: "is_float64 (1 / 2)" by (simp add: power_int_minus)
  note A = LinearJitterBackoff_range [of 2 1200000000 800000000 0 "1 / 2" None]
  note B = LinearJitterBackoff_range [of 2 second second 0 "1 / 2" None]
  from A f have "2400000000 \<le> LinearJitterBackoff 0 (1 / 2) 800000000 1200000000 2 None
   \<and> LinearJitterBackoff 0 (1 / 2) 800000000 1200000000 2 None \<le> 3600000000"
    by (simp add: in_int64_def)
  moreover from B have "LinearJitterBackoff 0 (1 / 2) second second 2 None = 3 * second"
    by (simp add: in_int64_def second_def)
  ultimately show ?thesis by blast
qed

text \<open>
  C9 fails on the code for a seekable reader whose \<^verbatim>\<open>Seek\<close> fails: the stored factory
  calls \<^verbatim>\<open>raw.Seek(0, 0)\<close> and drops its error, so the second stream starts where the
  first one ended. On a reader that holds \<open>abc\<close> and cannot seek, with nothing else
  touching it, two calls of the factory yield \<open>abc\<close> and then nothing. (For the byte
  slice, the buffer, the buffered readers and a reader whose seek succeeds the streams
  are identical: \<open>replay_identical\<close>.)
\<close>

theorem NewRequest_seek_failure_replay:
  "(case NewRequest http_ok ''POST'' ''http://example.test/'' (RawReadSeeker 0) pipe_heap of
      (Inr req, h) \<Rightarrow> map_option (\<lambda>f. replay 2 f h) (body req)
    | (Inl e, h) \<Rightarrow> None) = Some [Inr ''abc'', Inr '''']"
  by (simp add: NewRequest_def http_ok_def pipe_heap_def numeral_2_eq_2 obtain_read_def
      Seek0_def read_stream_def ReadAll_def)

end
